theory Spec2Isabelle
  imports Complex_Main "HOL-Library.Multiset"
begin

section \<open>The infinite corridor of runportal.py\<close>

text \<open>
  The program keeps four lists of scene-graph handles (left wall, right wall, ceiling,
  floor), moves a camera along the Y axis from two key flags, and moves the front panel
  of every face to the far end each time one segment length of forward distance has been
  covered. Every tick is appended to a CSV file.

  Conventions of the embedding:
  \<^item> Python's \<open>float\<close> values are modelled as exact rationals (\<open>rat\<close>); rounding of
    IEEE arithmetic is outside the model. The theorems about the program are therefore
    limited to what does not rest on an identity of exact arithmetic: which value is
    read, which node receives it, which branch is taken, what stays unchanged, what
    order facts hold, and runs whose numbers are small integers, where floating point
    is exact. The lemmas about windows \<open>(m + k) * L\<close> and about quotients of the
    accumulated distance are facts of the model; they serve as invariants (no call
    raises, the lists keep their length) and to run the model on small integers.
  \<^item> A \<open>NodePath\<close> is a mutable object shared by reference; the model keeps the nodes
    attached below the corridor's parent in a store (\<open>scene\<close>, a list) and a handle is
    the index of its node there. \<open>attachNewNode\<close> allocates the next index.
  \<^item> An exception is a value \<open>Inl e\<close> of \<open>py_error + 'a\<close>.
  \<^item> The \<open>while\<close> loop of \<open>update\<close> may run forever (a non-positive segment length),
    so it is a \<open>partial_function\<close> into \<open>option\<close>: \<open>None\<close> is "does not return".
  \<^item> The ambient inputs of a tick, \<open>globalClock.getDt()\<close> and \<open>time.time()\<close>, are
    parameters of \<open>update\<close>.
\<close>

subsection \<open>Scene graph nodes\<close>

datatype py_error = IndexError | ValueError

record node_path =
  node_name :: string
  node_frame :: "rat \<times> rat \<times> rat \<times> rat"
  node_x :: rat
  node_y :: rat
  node_z :: rat
  node_hpr :: "rat \<times> rat \<times> rat"
  node_texture :: "string option"

type_synonym handle = nat

text \<open>\<open>CardMaker(name)\<close>, \<open>setFrame(l, r, b, t)\<close>, \<open>generate()\<close> and
  \<open>parent.attachNewNode(...)\<close>: a fresh node at the origin, unrotated, untextured,
  stored behind the next free handle.\<close>

definition attachNewNode ::
  "node_path list \<Rightarrow> string \<Rightarrow> rat \<times> rat \<times> rat \<times> rat \<Rightarrow> node_path list \<times> handle" where
  "attachNewNode sc nm fr =
     (sc @ [\<lparr>node_name = nm, node_frame = fr, node_x = 0, node_y = 0, node_z = 0,
             node_hpr = (0, 0, 0), node_texture = None\<rparr>], length sc)"

definition setPos :: "node_path list \<Rightarrow> handle \<Rightarrow> rat \<Rightarrow> rat \<Rightarrow> rat \<Rightarrow> node_path list" where
  "setPos sc h x y z = sc[h := (sc ! h)\<lparr>node_x := x, node_y := y, node_z := z\<rparr>]"

definition setHpr :: "node_path list \<Rightarrow> handle \<Rightarrow> rat \<Rightarrow> rat \<Rightarrow> rat \<Rightarrow> node_path list" where
  "setHpr sc h hdg pit rol = sc[h := (sc ! h)\<lparr>node_hpr := (hdg, pit, rol)\<rparr>]"

definition setTexture :: "node_path list \<Rightarrow> handle \<Rightarrow> string \<Rightarrow> node_path list" where
  "setTexture sc h tex = sc[h := (sc ! h)\<lparr>node_texture := Some tex\<rparr>]"

definition getY :: "node_path list \<Rightarrow> handle \<Rightarrow> rat" where
  "getY sc h = node_y (sc ! h)"

definition setY :: "node_path list \<Rightarrow> handle \<Rightarrow> rat \<Rightarrow> node_path list" where
  "setY sc h y = sc[h := (sc ! h)\<lparr>node_y := y\<rparr>]"

subsection \<open>Python list operations that can raise\<close>

text \<open>\<open>xs[-1]\<close> and \<open>xs.pop(0)\<close> raise \<open>IndexError\<close> on an empty list.\<close>

definition last_item :: "'a list \<Rightarrow> py_error + 'a" where
  "last_item xs = (if xs = [] then Inl IndexError else Inr (last xs))"

definition pop0 :: "'a list \<Rightarrow> py_error + 'a \<times> 'a list" where
  "pop0 xs = (case xs of [] \<Rightarrow> Inl IndexError | x # rest \<Rightarrow> Inr (x, rest))"

text \<open>Sequencing: an exception of the first step is the result, otherwise the rest
  runs on the value.\<close>

definition raise_or :: "py_error + 'a \<Rightarrow> ('a \<Rightarrow> py_error + 'b) \<Rightarrow> py_error + 'b" where
  "raise_or r k = (case r of Inl e \<Rightarrow> Inl e | Inr v \<Rightarrow> k v)"

subsection \<open>Configuration\<close>

text \<open>The dictionary read from the JSON file. \<open>speed_scaling\<close> and \<open>camera_height\<close>
  are read with \<open>cfg.get(key, default)\<close>, so they may be absent.\<close>

record config =
  cfg_segment_length :: rat
  cfg_corridor_width :: rat
  cfg_wall_height :: rat
  cfg_num_segments :: int
  cfg_left_wall_texture :: string
  cfg_right_wall_texture :: string
  cfg_ceiling_texture :: string
  cfg_floor_texture :: string
  cfg_window_width :: int
  cfg_window_height :: int
  cfg_speed_scaling :: "rat option"
  cfg_camera_height :: "rat option"
  cfg_data_logging_file :: string

subsection \<open>Corridor\<close>

text \<open>The four counters \<open>*_recycled\<close> are bookkeeping of the model only: each counts
  the pop/setY/append blocks that \<open>recycle_segment\<close> has applied to its face. No
  operation reads them.\<close>

record corridor =
  segment_length :: rat
  corridor_width :: rat
  wall_height :: rat
  num_segments :: int
  left_wall_texture :: string
  right_wall_texture :: string
  ceiling_texture :: string
  floor_texture :: string
  scene :: "node_path list"
  left_segments :: "handle list"
  right_segments :: "handle list"
  ceiling_segments :: "handle list"
  floor_segments :: "handle list"
  left_recycled :: nat
  right_recycled :: nat
  ceiling_recycled :: nat
  floor_recycled :: nat

text \<open>\<open>apply_texture\<close>: load the texture and bind it to the node.\<close>

definition apply_texture :: "node_path list \<Rightarrow> handle \<Rightarrow> string \<Rightarrow> node_path list" where
  "apply_texture sc node texture_path = setTexture sc node texture_path"

text \<open>One iteration of the loop of \<open>build_segments\<close>, for index \<open>i\<close>.\<close>

definition build_segment :: "int \<Rightarrow> corridor \<Rightarrow> corridor" where
  "build_segment i c =
     (let segment_start = of_int i * segment_length c;
          (sc, left_node) = attachNewNode (scene c) ''left_wall''
                              (0, segment_length c, 0, wall_height c);
          sc = setPos sc left_node (- corridor_width c / 2) segment_start 0;
          sc = setHpr sc left_node 90 0 0;
          sc = apply_texture sc left_node (left_wall_texture c);
          c = c\<lparr>scene := sc, left_segments := left_segments c @ [left_node]\<rparr>;
          (sc, right_node) = attachNewNode (scene c) ''right_wall''
                              (0, segment_length c, 0, wall_height c);
          sc = setPos sc right_node (corridor_width c / 2) segment_start 0;
          sc = setHpr sc right_node (- 90) 0 0;
          sc = apply_texture sc right_node (right_wall_texture c);
          c = c\<lparr>scene := sc, right_segments := right_segments c @ [right_node]\<rparr>;
          (sc, ceiling_node) = attachNewNode (scene c) ''ceiling''
                              (- corridor_width c / 2, corridor_width c / 2, 0, segment_length c);
          sc = setPos sc ceiling_node 0 segment_start (wall_height c);
          sc = setHpr sc ceiling_node 0 90 0;
          sc = apply_texture sc ceiling_node (ceiling_texture c);
          c = c\<lparr>scene := sc, ceiling_segments := ceiling_segments c @ [ceiling_node]\<rparr>;
          (sc, floor_node) = attachNewNode (scene c) ''floor''
                              (- corridor_width c / 2, corridor_width c / 2, 0, segment_length c);
          sc = setPos sc floor_node 0 segment_start 0;
          sc = setHpr sc floor_node 0 (- 90) 0;
          sc = apply_texture sc floor_node (floor_texture c)
      in c\<lparr>scene := sc, floor_segments := floor_segments c @ [floor_node]\<rparr>)"

text \<open>\<open>for i in range(self.num_segments)\<close>: the indices \<open>0, ..., num_segments - 1\<close>,
  none when \<open>num_segments \<le> 0\<close>.\<close>

definition build_segments :: "corridor \<Rightarrow> corridor" where
  "build_segments c = fold build_segment [0 .. num_segments c - 1] c"

text \<open>\<open>Corridor.__init__\<close>: copy the configuration, start with empty lists, build.\<close>

definition Corridor_init :: "config \<Rightarrow> corridor" where
  "Corridor_init cfg =
     build_segments
       \<lparr>segment_length = cfg_segment_length cfg,
        corridor_width = cfg_corridor_width cfg,
        wall_height = cfg_wall_height cfg,
        num_segments = cfg_num_segments cfg,
        left_wall_texture = cfg_left_wall_texture cfg,
        right_wall_texture = cfg_right_wall_texture cfg,
        ceiling_texture = cfg_ceiling_texture cfg,
        floor_texture = cfg_floor_texture cfg,
        scene = [],
        left_segments = [], right_segments = [], ceiling_segments = [], floor_segments = [],
        left_recycled = 0, right_recycled = 0, ceiling_recycled = 0, floor_recycled = 0\<rparr>"

text \<open>\<open>recycle_segment\<close>. The new Y is read from the last panel of the left wall before
  anything is moved, and given to the front panel of every face.\<close>

definition recycle_segment :: "corridor \<Rightarrow> py_error + corridor" where
  "recycle_segment c =
     raise_or (last_item (left_segments c)) (\<lambda>tail_node.
     let new_y = getY (scene c) tail_node + segment_length c in
     raise_or (pop0 (left_segments c)) (\<lambda>(left_seg, rest).
     let c = c\<lparr>scene := setY (scene c) left_seg new_y,
               left_segments := rest @ [left_seg],
               left_recycled := Suc (left_recycled c)\<rparr> in
     raise_or (pop0 (right_segments c)) (\<lambda>(right_seg, rest).
     let c = c\<lparr>scene := setY (scene c) right_seg new_y,
               right_segments := rest @ [right_seg],
               right_recycled := Suc (right_recycled c)\<rparr> in
     raise_or (pop0 (ceiling_segments c)) (\<lambda>(ceiling_seg, rest).
     let c = c\<lparr>scene := setY (scene c) ceiling_seg new_y,
               ceiling_segments := rest @ [ceiling_seg],
               ceiling_recycled := Suc (ceiling_recycled c)\<rparr> in
     raise_or (pop0 (floor_segments c)) (\<lambda>(floor_seg, rest).
     Inr (c\<lparr>scene := setY (scene c) floor_seg new_y,
             floor_segments := rest @ [floor_seg],
             floor_recycled := Suc (floor_recycled c)\<rparr>))))))"

text \<open>The faces, the list of a face and the Y positions of its panels in list order.\<close>

datatype face = LeftWall | RightWall | Ceiling | Floor

fun face_segments :: "face \<Rightarrow> corridor \<Rightarrow> handle list" where
  "face_segments LeftWall c = left_segments c"
| "face_segments RightWall c = right_segments c"
| "face_segments Ceiling c = ceiling_segments c"
| "face_segments Floor c = floor_segments c"

fun face_recycled :: "face \<Rightarrow> corridor \<Rightarrow> nat" where
  "face_recycled LeftWall c = left_recycled c"
| "face_recycled RightWall c = right_recycled c"
| "face_recycled Ceiling c = ceiling_recycled c"
| "face_recycled Floor c = floor_recycled c"

definition face_positions :: "face \<Rightarrow> corridor \<Rightarrow> rat list" where
  "face_positions f c = map (getY (scene c)) (face_segments f c)"

text \<open>\<open>r\<close> calls of \<open>recycle_segment\<close> in a row, stopping at the first exception.\<close>

fun recycle_times :: "nat \<Rightarrow> corridor \<Rightarrow> py_error + corridor" where
  "recycle_times 0 c = Inr c"
| "recycle_times (Suc r) c = raise_or (recycle_segment c) (recycle_times r)"

subsection \<open>DataLogger\<close>

text \<open>
  The file system maps a path to the rows of the regular file there. A row is a list of
  cells; a number stays a number, since how \<open>csv\<close> prints a float is not modelled.
  The file object buffers: \<open>pending\<close> holds the rows written and not yet flushed.
\<close>

datatype cell = Text string | Number rat

type_synonym file_system = "string \<rightharpoonup> cell list list"

record data_logger =
  filename :: string
  fieldnames :: "string list"
  pending :: "cell list list"
  closed :: bool

definition writeheader :: "data_logger \<Rightarrow> data_logger" where
  "writeheader lg = lg\<lparr>pending := pending lg @ [map Text (fieldnames lg)]\<rparr>"

definition writerow :: "data_logger \<Rightarrow> cell list \<Rightarrow> py_error + data_logger" where
  "writerow lg r = (if closed lg then Inl ValueError else Inr (lg\<lparr>pending := pending lg @ [r]\<rparr>))"

definition flush :: "file_system \<Rightarrow> data_logger \<Rightarrow> py_error + file_system \<times> data_logger" where
  "flush fs lg =
     (if closed lg then Inl ValueError
      else Inr (fs(filename lg \<mapsto> (case fs (filename lg) of None \<Rightarrow> [] | Some rows \<Rightarrow> rows) @ pending lg),
                lg\<lparr>pending := []\<rparr>))"

text \<open>\<open>DataLogger.__init__\<close>: \<open>os.path.isfile\<close> is asked before \<open>open(filename, 'a')\<close>
  creates a missing file; the header is written when the file was not there.\<close>

definition DataLogger_init :: "file_system \<Rightarrow> string \<Rightarrow> file_system \<times> data_logger" where
  "DataLogger_init fs fname =
     (let file_exists = (fs fname \<noteq> None);
          fs = (if file_exists then fs else fs(fname \<mapsto> []));
          lg = \<lparr>filename = fname, fieldnames = [''timestamp'', ''position'', ''velocity''],
                pending = [], closed = False\<rparr>
      in if \<not> file_exists then (fs, writeheader lg) else (fs, lg))"

text \<open>\<open>log\<close>: one row in the order of the field names, then flush.\<close>

definition log ::
  "file_system \<Rightarrow> data_logger \<Rightarrow> rat \<Rightarrow> rat \<Rightarrow> rat \<Rightarrow> py_error + file_system \<times> data_logger" where
  "log fs lg timestamp position velocity =
     raise_or (writerow lg [Number timestamp, Number position, Number velocity]) (\<lambda>lg.
     flush fs lg)"

text \<open>\<open>close\<close>: closing a file flushes it; closing twice is allowed.\<close>

definition close :: "file_system \<Rightarrow> data_logger \<Rightarrow> file_system \<times> data_logger" where
  "close fs lg =
     (case flush fs lg of Inl e \<Rightarrow> (fs, lg) | Inr (fs, lg) \<Rightarrow> (fs, lg\<lparr>closed := True\<rparr>))"

subsection \<open>MousePortal\<close>

datatype key = forward | backward

record mouse_portal =
  window_size :: "int \<times> int"
  player_position :: rat
  player_velocity :: rat
  speed_scaling :: rat
  camera_height :: rat
  camera_pos :: "rat \<times> rat \<times> rat"
  camera_hpr :: "rat \<times> rat \<times> rat"
  key_map :: "key \<Rightarrow> bool"
  the_corridor :: corridor
  portal_segment_length :: rat
  distance_since_recycle :: rat
  movement_speed :: rat
  the_data_logger :: data_logger
  files :: file_system

text \<open>\<open>MousePortal.__init__\<close>, after the configuration has been loaded.\<close>

definition MousePortal_init :: "file_system \<Rightarrow> config \<Rightarrow> mouse_portal" where
  "MousePortal_init fs cfg =
     (let speed = (case cfg_speed_scaling cfg of None \<Rightarrow> 5 | Some v \<Rightarrow> v);
          height = (case cfg_camera_height cfg of None \<Rightarrow> 2 | Some v \<Rightarrow> v);
          (fs, lg) = DataLogger_init fs (cfg_data_logging_file cfg)
      in \<lparr>window_size = (cfg_window_width cfg, cfg_window_height cfg),
          player_position = 0,
          player_velocity = 0,
          speed_scaling = speed,
          camera_height = height,
          camera_pos = (0, 0, height),
          camera_hpr = (0, 0, 0),
          key_map = (\<lambda>k. False),
          the_corridor = Corridor_init cfg,
          portal_segment_length = cfg_segment_length cfg,
          distance_since_recycle = 0,
          movement_speed = 10,
          the_data_logger = lg,
          files = fs\<rparr>)"

definition set_key :: "key \<Rightarrow> bool \<Rightarrow> mouse_portal \<Rightarrow> mouse_portal" where
  "set_key k v s = s\<lparr>key_map := (key_map s)(k := v)\<rparr>"

text \<open>The \<open>while\<close> loop of \<open>update\<close>. The second argument counts the calls of
  \<open>recycle_segment\<close> made so far (the recycle events); it is returned with the state.\<close>

partial_function (option) recycle_loop ::
  "mouse_portal \<Rightarrow> nat \<Rightarrow> (py_error + mouse_portal \<times> nat) option" where
  "recycle_loop s fired =
     (if distance_since_recycle s \<ge> portal_segment_length s then
        (case recycle_segment (the_corridor s) of
           Inl e \<Rightarrow> Some (Inl e)
         | Inr c \<Rightarrow>
             recycle_loop
               (s\<lparr>the_corridor := c,
                  distance_since_recycle := distance_since_recycle s - portal_segment_length s\<rparr>)
               (Suc fired))
      else Some (Inr (s, fired)))"

declare recycle_loop.simps [code]

text \<open>The first half of \<open>update\<close>: velocity from the keys, position, camera.\<close>

definition move_player :: "rat \<Rightarrow> mouse_portal \<Rightarrow> mouse_portal" where
  "move_player dt s =
     (let s = s\<lparr>player_velocity :=
                  (if key_map s forward then speed_scaling s
                   else if key_map s backward then - speed_scaling s
                   else 0)\<rparr>;
          s = s\<lparr>player_position := player_position s + player_velocity s * dt\<rparr>
      in s\<lparr>camera_pos := (0, player_position s, camera_height s)\<rparr>)"

text \<open>The last statement of \<open>update\<close> before \<open>return Task.cont\<close>.\<close>

definition log_tick :: "rat \<Rightarrow> mouse_portal \<Rightarrow> py_error + mouse_portal" where
  "log_tick now s =
     raise_or (log (files s) (the_data_logger s) now (player_position s) (player_velocity s))
       (\<lambda>(fs, lg). Inr (s\<lparr>the_data_logger := lg, files := fs\<rparr>))"

text \<open>\<open>update\<close>, with \<open>dt = globalClock.getDt()\<close> and \<open>now = time.time()\<close>. The result
  is \<open>None\<close> when the loop does not end, an exception, or the new state with the number
  of recycle events of this tick.\<close>

definition update :: "rat \<Rightarrow> rat \<Rightarrow> mouse_portal \<Rightarrow> (py_error + mouse_portal \<times> nat) option" where
  "update dt now s =
     (let s = move_player dt s;
          move_distance = player_velocity s * dt
      in case (if move_distance > 0
               then recycle_loop
                      (s\<lparr>distance_since_recycle := distance_since_recycle s + move_distance\<rparr>) 0
               else Some (Inr (s, 0))) of
           None \<Rightarrow> None
         | Some (Inl e) \<Rightarrow> Some (Inl e)
         | Some (Inr (s, fired)) \<Rightarrow>
             Some (raise_or (log_tick now s) (\<lambda>s. Inr (s, fired))))"

text \<open>What happens between start and exit: key events and frames, in order. \<open>run\<close>
  adds up the recycle events and stops at the first exception.\<close>

datatype event = Key key bool | Frame rat rat

fun step :: "event \<Rightarrow> mouse_portal \<Rightarrow> (py_error + mouse_portal \<times> nat) option" where
  "step (Key k v) s = Some (Inr (set_key k v s, 0))"
| "step (Frame dt now) s = update dt now s"

fun run :: "event list \<Rightarrow> mouse_portal \<Rightarrow> nat \<Rightarrow> (py_error + mouse_portal \<times> nat) option" where
  "run [] s fired = Some (Inr (s, fired))"
| "run (e # es) s fired =
     (case step e s of
        None \<Rightarrow> None
      | Some (Inl err) \<Rightarrow> Some (Inl err)
      | Some (Inr (s', n)) \<Rightarrow> run es s' (fired + n))"

subsection \<open>Notions used in the statements\<close>

text \<open>All handles held by the four lists; they are well formed when no node is held
  twice and every handle refers to a node of the scene.\<close>

definition handles :: "corridor \<Rightarrow> handle list" where
  "handles c = left_segments c @ right_segments c @ ceiling_segments c @ floor_segments c"

definition wf_handles :: "corridor \<Rightarrow> bool" where
  "wf_handles c \<longleftrightarrow> distinct (handles c) \<and> list_all (\<lambda>h. h < length (scene c)) (handles c)"

text \<open>The positions \<open>m * L, (m + 1) * L, ..., (m + n - 1) * L\<close>.\<close>

definition window :: "rat \<Rightarrow> nat \<Rightarrow> int \<Rightarrow> rat list" where
  "window L n m = map (\<lambda>k. of_int (m + int k) * L) [0..<n]"

text \<open>The recycle rule in the words of the specification: the front panel goes to the
  tail at its own position plus one segment length.\<close>

definition recycle_front_rule :: "rat \<Rightarrow> rat list \<Rightarrow> rat list" where
  "recycle_front_rule L ps = tl ps @ [hd ps + L]"

text \<open>Configurations used to run the model: five panels of length 10, speed 1, and the
  same with two panels.\<close>

definition example_config :: config where
  "example_config =
     \<lparr>cfg_segment_length = 10, cfg_corridor_width = 4, cfg_wall_height = 3,
      cfg_num_segments = 5,
      cfg_left_wall_texture = ''left.png'', cfg_right_wall_texture = ''right.png'',
      cfg_ceiling_texture = ''ceiling.png'', cfg_floor_texture = ''floor.png'',
      cfg_window_width = 800, cfg_window_height = 600,
      cfg_speed_scaling = Some 1, cfg_camera_height = None,
      cfg_data_logging_file = ''log.csv''\<rparr>"

definition two_panels :: config where
  "two_panels = example_config\<lparr>cfg_num_segments := 2\<rparr>"

text \<open>The corridor as \<open>build_segments\<close> and \<open>recycle_segment\<close> leave it: well-formed
  handles, \<open>n > 0\<close> panels per face, every face at the window of offset \<open>m\<close>. The
  application state is in order when its corridor is, the segment length is positive,
  the accumulator is not negative and the log file is open.\<close>

definition ring_inv :: "nat \<Rightarrow> int \<Rightarrow> corridor \<Rightarrow> bool" where
  "ring_inv n m c \<longleftrightarrow>
     wf_handles c \<and> 0 < n \<and> (\<forall>f. face_positions f c = window (segment_length c) n m)"

definition portal_ok :: "nat \<Rightarrow> int \<Rightarrow> mouse_portal \<Rightarrow> bool" where
  "portal_ok n m s \<longleftrightarrow>
     ring_inv n m (the_corridor s) \<and> 0 < portal_segment_length s \<and>
     0 \<le> distance_since_recycle s \<and> \<not> closed (the_data_logger s)"

text \<open>What the log file holds once the buffer is written out; the header row and the
  row of one record as \<open>DataLogger\<close> writes them; a list of records logged in order; a
  session (open the logger, log the records, close); two sessions in a row on one path;
  reading a path.\<close>

definition on_disk_after_flush :: "file_system \<Rightarrow> data_logger \<Rightarrow> cell list list" where
  "on_disk_after_flush fs lg =
     (case fs (filename lg) of None \<Rightarrow> [] | Some rows \<Rightarrow> rows) @ pending lg"

definition header_row :: "cell list" where
  "header_row = [Text ''timestamp'', Text ''position'', Text ''velocity'']"

fun data_row :: "rat \<times> rat \<times> rat \<Rightarrow> cell list" where
  "data_row (t, p, v) = [Number t, Number p, Number v]"

fun log_all ::
  "file_system \<Rightarrow> data_logger \<Rightarrow> (rat \<times> rat \<times> rat) list \<Rightarrow> py_error + file_system \<times> data_logger" where
  "log_all fs lg [] = Inr (fs, lg)"
| "log_all fs lg ((t, p, v) # recs) =
     raise_or (log fs lg t p v) (\<lambda>(fs, lg). log_all fs lg recs)"

definition session :: "file_system \<Rightarrow> string \<Rightarrow> (rat \<times> rat \<times> rat) list \<Rightarrow> py_error + file_system" where
  "session fs fname recs =
     (let (fs, lg) = DataLogger_init fs fname
      in raise_or (log_all fs lg recs) (\<lambda>(fs, lg). Inr (fst (close fs lg))))"

definition two_sessions ::
  "file_system \<Rightarrow> string \<Rightarrow> (rat \<times> rat \<times> rat) list \<Rightarrow> (rat \<times> rat \<times> rat) list
     \<Rightarrow> py_error + file_system" where
  "two_sessions fs fname recs later =
     raise_or (session fs fname recs) (\<lambda>fs. session fs fname later)"

definition read_file :: "string \<Rightarrow> file_system \<Rightarrow> cell list list option" where
  "read_file fname fs = fs fname"

section \<open>The corridor after \<open>build_segments\<close>\<close>

lemma length_setY [simp]: "length (setY sc h y) = length sc"
  by (simp add: setY_def)

lemma getY_setY: "h < length sc \<Longrightarrow> getY (setY sc h y) h' = (if h' = h then y else getY sc h')"
  by (simp add: getY_def setY_def)

lemma getY_setY_other: "h' \<noteq> h \<Longrightarrow> getY (setY sc h y) h' = getY sc h'"
  by (simp add: getY_def setY_def)

lemma build_segment_fields:
  "segment_length (build_segment i c) = segment_length c"
  "num_segments (build_segment i c) = num_segments c"
  "left_recycled (build_segment i c) = left_recycled c"
  "right_recycled (build_segment i c) = right_recycled c"
  "ceiling_recycled (build_segment i c) = ceiling_recycled c"
  "floor_recycled (build_segment i c) = floor_recycled c"
  "left_segments (build_segment i c) = left_segments c @ [length (scene c)]"
  "right_segments (build_segment i c) = right_segments c @ [length (scene c) + 1]"
  "ceiling_segments (build_segment i c) = ceiling_segments c @ [length (scene c) + 2]"
  "floor_segments (build_segment i c) = floor_segments c @ [length (scene c) + 3]"
  "length (scene (build_segment i c)) = length (scene c) + 4"
  by (simp_all add: build_segment_def Let_def attachNewNode_def setPos_def setHpr_def
      apply_texture_def setTexture_def)

lemma build_segment_ys:
  "map node_y (scene (build_segment i c)) =
     map node_y (scene c) @ replicate 4 (of_int i * segment_length c)"
  by (simp add: build_segment_def Let_def attachNewNode_def setPos_def setHpr_def
      apply_texture_def setTexture_def list_update_append map_update numeral_eq_Suc)


lemma getY_build_segment_old:
  "h < length (scene c) \<Longrightarrow> getY (scene (build_segment i c)) h = getY (scene c) h"
proof -
  assume h: "h < length (scene c)"
  have "getY (scene (build_segment i c)) h = map node_y (scene (build_segment i c)) ! h"
    using h by (simp add: getY_def build_segment_fields)
  also have "\<dots> = map node_y (scene c) ! h"
    using h by (simp add: build_segment_ys nth_append)
  finally show ?thesis using h by (simp add: getY_def)
qed

lemma getY_build_segment_new:
  "j < 4 \<Longrightarrow> getY (scene (build_segment i c)) (length (scene c) + j) = of_int i * segment_length c"
proof -
  assume j: "j < 4"
  have "getY (scene (build_segment i c)) (length (scene c) + j)
          = map node_y (scene (build_segment i c)) ! (length (scene c) + j)"
    using j by (simp add: getY_def build_segment_fields)
  also have "\<dots> = of_int i * segment_length c"
    using j by (simp add: build_segment_ys nth_append)
  finally show ?thesis .
qed

lemma fresh_not_held:
  "list_all (\<lambda>h. h < n) hs \<Longrightarrow> n + j \<notin> set (hs :: nat list)"
  by (induction hs) auto

lemma wf_handles_build_segment: 
  assumes "wf_handles c"
  shows "wf_handles (build_segment i c)"
proof -
  let ?n = "length (scene c)"
  have d: "distinct (left_segments c @ right_segments c @ ceiling_segments c @ floor_segments c)"
    using assms by (simp add: wf_handles_def handles_def)
  have b: "list_all (\<lambda>h. h < ?n) (left_segments c)" "list_all (\<lambda>h. h < ?n) (right_segments c)"
    "list_all (\<lambda>h. h < ?n) (ceiling_segments c)" "list_all (\<lambda>h. h < ?n) (floor_segments c)"
    using assms by (simp_all add: wf_handles_def handles_def)
  have f0: "?n \<notin> set (left_segments c)" "?n \<notin> set (right_segments c)"
    "?n \<notin> set (ceiling_segments c)" "?n \<notin> set (floor_segments c)"
    using b fresh_not_held [of ?n _ 0] by simp_all
  have f1: "Suc ?n \<notin> set (left_segments c)" "Suc ?n \<notin> set (right_segments c)"
    "Suc ?n \<notin> set (ceiling_segments c)" "Suc ?n \<notin> set (floor_segments c)"
    using b fresh_not_held [of ?n _ 1] by simp_all
  have f2: "Suc (Suc ?n) \<notin> set (left_segments c)" "Suc (Suc ?n) \<notin> set (right_segments c)"
    "Suc (Suc ?n) \<notin> set (ceiling_segments c)" "Suc (Suc ?n) \<notin> set (floor_segments c)"
    using b fresh_not_held [of ?n _ 2] by simp_all
  have f3: "Suc (Suc (Suc ?n)) \<notin> set (left_segments c)" "Suc (Suc (Suc ?n)) \<notin> set (right_segments c)"
    "Suc (Suc (Suc ?n)) \<notin> set (ceiling_segments c)" "Suc (Suc (Suc ?n)) \<notin> set (floor_segments c)"
    using b fresh_not_held [of ?n _ 3] by (simp_all add: numeral_3_eq_3)
  have dist: "distinct (handles (build_segment i c))"
    using d f0 f1 f2 f3
    by (simp add: handles_def build_segment_fields numeral_3_eq_3 numeral_2_eq_2 Int_Un_distrib2 Int_Un_distrib)
  have mono: "list_all (\<lambda>h. h < ?n + 4) hs" if "list_all (\<lambda>h. h < ?n) hs" for hs
    using that by (induction hs) auto
  have bound: "list_all (\<lambda>h. h < length (scene (build_segment i c))) (handles (build_segment i c))"
    using b [THEN mono]
    by (simp add: handles_def build_segment_fields)
  show ?thesis using dist bound by (simp add: wf_handles_def)
qed

lemma map_getY_build_segment:
  "list_all (\<lambda>h. h < length (scene c)) hs \<Longrightarrow>
     map (getY (scene (build_segment i c))) hs = map (getY (scene c)) hs"
  by (simp add: list_all_iff getY_build_segment_old)

lemma face_positions_build_segment:
  assumes "wf_handles c"
  shows "face_positions f (build_segment i c) = face_positions f c @ [of_int i * segment_length c]"
proof -
  have old: "list_all (\<lambda>h. h < length (scene c)) (face_segments f c)"
    using assms by (cases f) (auto simp: wf_handles_def handles_def list_all_iff)
  have n0: "getY (scene (build_segment i c)) (length (scene c)) = of_int i * segment_length c"
    using getY_build_segment_new [of 0 i c] by simp
  show ?thesis
    using old n0 getY_build_segment_new [of 1 i c] getY_build_segment_new [of 2 i c]
      getY_build_segment_new [of 3 i c]
    by (cases f) (simp_all add: face_positions_def build_segment_fields map_getY_build_segment)
qed

lemma fold_build_segment:
  "wf_handles c \<Longrightarrow>
     wf_handles (fold build_segment js c) \<and>
     segment_length (fold build_segment js c) = segment_length c \<and>
     num_segments (fold build_segment js c) = num_segments c \<and>
     (\<forall>f. face_recycled f (fold build_segment js c) = face_recycled f c) \<and>
     (\<forall>f. face_positions f (fold build_segment js c) =
            face_positions f c @ map (\<lambda>i. of_int i * segment_length c) js)"
proof (induction js arbitrary: c)
  case Nil
  then show ?case by simp
next
  case (Cons j js)
  have wf: "wf_handles (build_segment j c)"
    using Cons.prems by (rule wf_handles_build_segment)
  have rc: "face_recycled f (build_segment j c) = face_recycled f c" for f
    by (cases f) (simp_all add: build_segment_fields)
  show ?case
    using Cons.IH [OF wf] Cons.prems
    by (simp add: build_segment_fields face_positions_build_segment rc)
qed


lemma upto_as_upt: "[0 .. int n - 1] = map int [0..<n]"
proof (induction n)
  case 0
  then show ?case by simp
next
  case (Suc n)
  have "[0 .. int (Suc n) - 1] = [0 .. int n - 1] @ [int n]"
    using upto_rec2 [of 0 "int n"] by simp
  then show ?case using Suc by simp
qed

lemma map_upto_window: "map (\<lambda>i. of_int i * L) [0 .. n - 1] = window L (nat n) 0"
proof (cases "0 \<le> n")
  case True
  then have "[0 .. n - 1] = map int [0..<nat n]"
    using upto_as_upt [of "nat n"] by simp
  then show ?thesis by (simp add: window_def comp_def)
next
  case False
  then show ?thesis by (simp add: window_def)
qed

lemma Corridor_init_props:
  "wf_handles (Corridor_init cfg)"
  "segment_length (Corridor_init cfg) = cfg_segment_length cfg"
  "num_segments (Corridor_init cfg) = cfg_num_segments cfg"
  "face_recycled f (Corridor_init cfg) = 0"
  "face_positions f (Corridor_init cfg) = window (cfg_segment_length cfg) (nat (cfg_num_segments cfg)) 0"
proof -
  let ?c0 = "\<lparr>segment_length = cfg_segment_length cfg,
        corridor_width = cfg_corridor_width cfg,
        wall_height = cfg_wall_height cfg,
        num_segments = cfg_num_segments cfg,
        left_wall_texture = cfg_left_wall_texture cfg,
        right_wall_texture = cfg_right_wall_texture cfg,
        ceiling_texture = cfg_ceiling_texture cfg,
        floor_texture = cfg_floor_texture cfg,
        scene = [],
        left_segments = [], right_segments = [], ceiling_segments = [], floor_segments = [],
        left_recycled = 0, right_recycled = 0, ceiling_recycled = 0, floor_recycled = 0\<rparr>"
  have wf0: "wf_handles ?c0" by (simp add: wf_handles_def handles_def)
  have eq: "Corridor_init cfg = fold build_segment [0 .. cfg_num_segments cfg - 1] ?c0"
    by (simp add: Corridor_init_def build_segments_def)
  have r0: "face_recycled f ?c0 = 0" by (cases f) simp_all
  have p0: "face_positions f ?c0 = []" by (cases f) (simp_all add: face_positions_def)
  note F = fold_build_segment [OF wf0, of "[0 .. cfg_num_segments cfg - 1]"]
  show "wf_handles (Corridor_init cfg)" using F eq by simp
  show "segment_length (Corridor_init cfg) = cfg_segment_length cfg" using F eq by simp
  show "num_segments (Corridor_init cfg) = cfg_num_segments cfg" using F eq by simp
  show "face_recycled f (Corridor_init cfg) = 0" using F eq r0 by simp
  show "face_positions f (Corridor_init cfg) = window (cfg_segment_length cfg) (nat (cfg_num_segments cfg)) 0"
    using F eq p0 by (simp add: map_upto_window)
qed

section \<open>One call of \<open>recycle_segment\<close>\<close>

lemma length_window [simp]: "length (window L n m) = n"
  by (simp add: window_def)

lemma nth_window: "k < n \<Longrightarrow> window L n m ! k = of_int (m + int k) * L"
  by (simp add: window_def)

lemma window_shift:
  assumes "0 < n"
  shows "tl (window L n m) @ [last (window L n m) + L] = window L n (m + 1)"
proof (rule nth_equalityI)
  show "length (tl (window L n m) @ [last (window L n m) + L]) = length (window L n (m + 1))"
    using assms by simp
next
  fix k
  assume "k < length (tl (window L n m) @ [last (window L n m) + L])"
  then have k: "k < n" using assms by simp
  have ne: "window L n m \<noteq> []" using assms by (auto simp: window_def)
  show "(tl (window L n m) @ [last (window L n m) + L]) ! k = window L n (m + 1) ! k"
  proof (cases "k < n - 1")
    case True
    have "(tl (window L n m) @ [last (window L n m) + L]) ! k = tl (window L n m) ! k"
      using True by (simp add: nth_append)
    also have "\<dots> = window L n m ! Suc k"
      using True by (simp add: nth_tl)
    also have "\<dots> = of_int (m + int (Suc k)) * L"
      using True by (intro nth_window) simp
    also have "m + int (Suc k) = m + 1 + int k" by simp
    finally show ?thesis using k by (simp only: nth_window)
  next
    case False
    then have kn: "k = n - 1" using k by simp
    have "last (window L n m) = window L n m ! (n - 1)"
      using ne by (simp add: last_conv_nth)
    also have "\<dots> = of_int (m + int (n - 1)) * L"
      using assms by (intro nth_window) simp
    finally have "last (window L n m) + L = (of_int (m + int (n - 1)) + 1) * L"
      by (simp only: distrib_right mult_1)
    also have "of_int (m + int (n - 1)) + (1::rat) = of_int (m + 1 + int (n - 1))"
      by simp
    finally have l: "last (window L n m) + L = window L n (m + 1) ! (n - 1)"
      using assms by (simp only: nth_window diff_less zero_less_one)
    have "(tl (window L n m) @ [last (window L n m) + L]) ! k = last (window L n m) + L"
      using kn by (simp add: nth_append)
    then show ?thesis using l kn by simp
  qed
qed


lemma recycle_segment_unfold:
  assumes "left_segments c = l # ls" "right_segments c = r # rs"
    "ceiling_segments c = ce # cs" "floor_segments c = fl # fs"
  shows "recycle_segment c =
     Inr (c\<lparr>scene := setY (setY (setY (setY (scene c) l (getY (scene c) (last (l # ls)) + segment_length c))
                                r (getY (scene c) (last (l # ls)) + segment_length c))
                                ce (getY (scene c) (last (l # ls)) + segment_length c))
                                fl (getY (scene c) (last (l # ls)) + segment_length c),
             left_segments := ls @ [l], right_segments := rs @ [r],
             ceiling_segments := cs @ [ce], floor_segments := fs @ [fl],
             left_recycled := Suc (left_recycled c), right_recycled := Suc (right_recycled c),
             ceiling_recycled := Suc (ceiling_recycled c), floor_recycled := Suc (floor_recycled c)\<rparr>)"
  using assms
  by (simp add: recycle_segment_def raise_or_def last_item_def pop0_def Let_def)

lemma getY_four:
  assumes "l < length sc" "r < length sc" "ce < length sc" "fl < length sc"
  shows "getY (setY (setY (setY (setY sc l y) r y) ce y) fl y) h =
           (if h = l \<or> h = r \<or> h = ce \<or> h = fl then y else getY sc h)"
  using assms by (simp add: getY_setY)


lemma map_getY_rotate:
  assumes "l < length sc" "r < length sc" "ce < length sc" "fl < length sc"
    and "h = l \<or> h = r \<or> h = ce \<or> h = fl"
    and "l \<notin> set hs" "r \<notin> set hs" "ce \<notin> set hs" "fl \<notin> set hs"
  shows "map (getY (setY (setY (setY (setY sc l y) r y) ce y) fl y)) (hs @ [h]) =
           tl (map (getY sc) (h # hs)) @ [y]"
proof -
  have same: "getY (setY (setY (setY (setY sc l y) r y) ce y) fl y) x = getY sc x"
    if "x \<in> set hs" for x
  proof -
    have "x \<noteq> l" "x \<noteq> r" "x \<noteq> ce" "x \<noteq> fl"
      using that assms(6-9) by blast+
    then show ?thesis using assms(1-4) by (simp add: getY_four)
  qed
  have moved: "getY (setY (setY (setY (setY sc l y) r y) ce y) fl y) h = y"
    using assms(1-5) by (simp add: getY_four)
  show ?thesis using same moved by simp
qed

lemma rotate_handles:
  assumes d: "distinct ((l # ls) @ (r # rs) @ (ce # cs) @ (fl # fs))"
  shows "distinct ((ls @ [l]) @ (rs @ [r]) @ (cs @ [ce]) @ (fs @ [fl]))"
    and "set ((ls @ [l]) @ (rs @ [r]) @ (cs @ [ce]) @ (fs @ [fl])) =
         set ((l # ls) @ (r # rs) @ (ce # cs) @ (fl # fs))"
proof -
  have m: "mset ((ls @ [l]) @ (rs @ [r]) @ (cs @ [ce]) @ (fs @ [fl])) =
           mset ((l # ls) @ (r # rs) @ (ce # cs) @ (fl # fs))"
    by (simp add: ac_simps)
  show "distinct ((ls @ [l]) @ (rs @ [r]) @ (cs @ [ce]) @ (fs @ [fl]))"
    using d mset_eq_imp_distinct_iff [OF m] by blast
  show "set ((ls @ [l]) @ (rs @ [r]) @ (cs @ [ce]) @ (fs @ [fl])) =
         set ((l # ls) @ (r # rs) @ (ce # cs) @ (fl # fs))"
    using mset_eq_setD [OF m] .
qed


lemma recycle_segment_step:
  assumes wf: "wf_handles c" and n: "0 < n"
    and pos: "\<And>f. face_positions f c = window (segment_length c) n m"
  shows "\<exists>c'. recycle_segment c = Inr c' \<and> wf_handles c' \<and>
           segment_length c' = segment_length c \<and> num_segments c' = num_segments c \<and>
           (\<forall>f. face_positions f c' = window (segment_length c) n (m + 1)) \<and>
           (\<forall>f. face_recycled f c' = Suc (face_recycled f c))"
proof -
  let ?L = "segment_length c"
  let ?sc = "scene c"
  have len: "length (face_segments f c) = n" for f
  proof -
    have "length (face_positions f c) = n" by (simp add: pos)
    then show ?thesis by (simp add: face_positions_def)
  qed
  obtain l ls where L: "left_segments c = l # ls"
    using len [of LeftWall] n by (cases "left_segments c") auto
  obtain r rs where R: "right_segments c = r # rs"
    using len [of RightWall] n by (cases "right_segments c") auto
  obtain ce cs where C: "ceiling_segments c = ce # cs"
    using len [of Ceiling] n by (cases "ceiling_segments c") auto
  obtain fl fs where F: "floor_segments c = fl # fs"
    using len [of Floor] n by (cases "floor_segments c") auto
  define y where "y = getY ?sc (last (l # ls)) + ?L"
  define sc' where "sc' = setY (setY (setY (setY ?sc l y) r y) ce y) fl y"
  define c' where "c' = c\<lparr>scene := sc',
             left_segments := ls @ [l], right_segments := rs @ [r],
             ceiling_segments := cs @ [ce], floor_segments := fs @ [fl],
             left_recycled := Suc (left_recycled c), right_recycled := Suc (right_recycled c),
             ceiling_recycled := Suc (ceiling_recycled c), floor_recycled := Suc (floor_recycled c)\<rparr>"
  have step: "recycle_segment c = Inr c'"
    unfolding c'_def sc'_def y_def by (rule recycle_segment_unfold [OF L R C F])
  have d: "distinct ((l # ls) @ (r # rs) @ (ce # cs) @ (fl # fs))"
    using wf L R C F by (simp add: wf_handles_def handles_def)
  have b: "\<forall>h \<in> set ((l # ls) @ (r # rs) @ (ce # cs) @ (fl # fs)). h < length ?sc"
    using wf L R C F by (simp add: wf_handles_def handles_def list_all_iff)
  have hb: "l < length ?sc" "r < length ?sc" "ce < length ?sc" "fl < length ?sc"
    using b by simp_all
  have hc': "handles c' = (ls @ [l]) @ (rs @ [r]) @ (cs @ [ce]) @ (fs @ [fl])"
    by (simp add: handles_def c'_def)
  have lsc': "length (scene c') = length ?sc"
    by (simp add: c'_def sc'_def)
  have wf': "wf_handles c'"
    using rotate_handles [OF d] b
    unfolding wf_handles_def hc' lsc' list_all_iff by blast
  have ylast: "y = last (window ?L n m) + ?L"
  proof -
    have "last (window ?L n m) = last (map (getY ?sc) (l # ls))"
      using pos [of LeftWall] L by (simp add: face_positions_def)
    also have "\<dots> = getY ?sc (last (l # ls))"
      by (rule last_map) simp
    finally show ?thesis by (simp add: y_def)
  qed
  have nl: "l \<notin> set ls" "r \<notin> set ls" "ce \<notin> set ls" "fl \<notin> set ls"
    using d by auto
  have nr: "l \<notin> set rs" "r \<notin> set rs" "ce \<notin> set rs" "fl \<notin> set rs"
    using d by auto
  have nc: "l \<notin> set cs" "r \<notin> set cs" "ce \<notin> set cs" "fl \<notin> set cs"
    using d by auto
  have nf: "l \<notin> set fs" "r \<notin> set fs" "ce \<notin> set fs" "fl \<notin> set fs"
    using d by auto
  have rot: "map (getY sc') (hs @ [h]) = tl (map (getY ?sc) (h # hs)) @ [y]"
    if "h = l \<or> h = r \<or> h = ce \<or> h = fl"
      "l \<notin> set hs" "r \<notin> set hs" "ce \<notin> set hs" "fl \<notin> set hs" for h hs
    unfolding sc'_def using hb that by (rule map_getY_rotate)
  have pos': "face_positions f c' = window ?L n (m + 1)" for f
  proof -
    have "face_positions f c' = tl (face_positions f c) @ [y]"
    proof (cases f)
      case LeftWall
      then show ?thesis
        using rot [of l ls] nl L by (simp add: face_positions_def c'_def)
    next
      case RightWall
      then show ?thesis
        using rot [of r rs] nr R by (simp add: face_positions_def c'_def)
    next
      case Ceiling
      then show ?thesis
        using rot [of ce cs] nc C by (simp add: face_positions_def c'_def)
    next
      case Floor
      then show ?thesis
        using rot [of fl fs] nf F by (simp add: face_positions_def c'_def)
    qed
    then show ?thesis
      using window_shift [OF n, of ?L m] by (simp add: pos ylast)
  qed
  have rec': "face_recycled f c' = Suc (face_recycled f c)" for f
    by (cases f) (simp_all add: c'_def)
  have "segment_length c' = ?L" "num_segments c' = num_segments c"
    by (simp_all add: c'_def)
  then show ?thesis using step wf' pos' rec' by blast
qed

section \<open>Any number of calls of \<open>recycle_segment\<close>\<close>

lemma recycle_times_inv:
  assumes "wf_handles c" and "0 < n"
    and "\<And>f. face_positions f c = window (segment_length c) n m"
  shows "\<exists>c'. recycle_times r c = Inr c' \<and> wf_handles c' \<and>
           segment_length c' = segment_length c \<and> num_segments c' = num_segments c \<and>
           (\<forall>f. face_positions f c' = window (segment_length c) n (m + int r)) \<and>
           (\<forall>f. face_recycled f c' = face_recycled f c + r)"
  using assms
proof (induction r arbitrary: c m)
  case 0
  then show ?case by simp
next
  case (Suc r)
  from recycle_segment_step [OF Suc.prems(1) Suc.prems(2), of m] Suc.prems(3)
  obtain c1 where c1: "recycle_segment c = Inr c1" "wf_handles c1"
    "segment_length c1 = segment_length c" "num_segments c1 = num_segments c"
    "\<And>f. face_positions f c1 = window (segment_length c) n (m + 1)"
    "\<And>f. face_recycled f c1 = Suc (face_recycled f c)"
    by blast
  have p1: "face_positions f c1 = window (segment_length c1) n (m + 1)" for f
    using c1(5) [of f] c1(3) by simp
  from Suc.IH [OF c1(2) Suc.prems(2) p1]
  obtain c2 where c2: "recycle_times r c1 = Inr c2" "wf_handles c2"
    "segment_length c2 = segment_length c1" "num_segments c2 = num_segments c1"
    "\<And>f. face_positions f c2 = window (segment_length c1) n (m + 1 + int r)"
    "\<And>f. face_recycled f c2 = face_recycled f c1 + r"
    by blast
  have "recycle_times (Suc r) c = Inr c2"
    using c1(1) c2(1) by (simp add: raise_or_def)
  moreover have "face_positions f c2 = window (segment_length c) n (m + int (Suc r))" for f
  proof -
    have "m + 1 + int r = m + int (Suc r)" by simp
    then show ?thesis using c2(5) [of f] c1(3) by (simp only:)
  qed
  moreover have "face_recycled f c2 = face_recycled f c + Suc r" for f
    using c2(6) [of f] c1(6) [of f] by simp
  ultimately show ?case
    using c2(2) c2(3) c2(4) c1(3) c1(4) by auto
qed

lemma recycle_times_init:
  assumes "1 \<le> cfg_num_segments cfg"
  shows "\<exists>c. recycle_times r (Corridor_init cfg) = Inr c \<and> wf_handles c \<and>
           segment_length c = cfg_segment_length cfg \<and> num_segments c = cfg_num_segments cfg \<and>
           (\<forall>f. face_positions f c =
                 window (cfg_segment_length cfg) (nat (cfg_num_segments cfg)) (int r)) \<and>
           (\<forall>f. face_recycled f c = r)"
proof -
  have n: "0 < nat (cfg_num_segments cfg)" using assms by simp
  have p: "face_positions f (Corridor_init cfg) =
             window (segment_length (Corridor_init cfg)) (nat (cfg_num_segments cfg)) 0" for f
    by (simp add: Corridor_init_props)
  from recycle_times_inv [OF Corridor_init_props(1) n p, of r]
  show ?thesis by (simp add: Corridor_init_props)
qed

section \<open>The example configurations\<close>

lemma example_config_fields [simp]:
  "cfg_num_segments example_config = 5" "cfg_segment_length example_config = 10"
  "cfg_num_segments two_panels = 2" "cfg_segment_length two_panels = 10"
  by (simp_all add: example_config_def two_panels_def)

lemma window_values:
  "window 10 5 3 = [30, 40, 50, 60, 70]" "window 10 2 0 = [0, 10]" "window 10 2 1 = [10, 20]"
  by (simp_all add: window_def upt_rec)

section \<open>What one recycle does to a face\<close>

lemma recycle_segment_effect:
  assumes wf: "wf_handles c" and ne: "\<And>f. face_segments f c \<noteq> []"
  shows "\<exists>c'. recycle_segment c = Inr c' \<and>
           (\<forall>f. face_segments f c' = tl (face_segments f c) @ [hd (face_segments f c)]) \<and>
           (\<forall>f. getY (scene c') (hd (face_segments f c)) =
                 getY (scene c) (last (left_segments c)) + segment_length c) \<and>
           (\<forall>h. (\<forall>f. h \<noteq> hd (face_segments f c)) \<longrightarrow> getY (scene c') h = getY (scene c) h)"
proof -
  obtain l ls where L: "left_segments c = l # ls"
    using ne [of LeftWall] by (cases "left_segments c") auto
  obtain r rs where R: "right_segments c = r # rs"
    using ne [of RightWall] by (cases "right_segments c") auto
  obtain ce cs where C: "ceiling_segments c = ce # cs"
    using ne [of Ceiling] by (cases "ceiling_segments c") auto
  obtain fl fs where F: "floor_segments c = fl # fs"
    using ne [of Floor] by (cases "floor_segments c") auto
  define y where "y = getY (scene c) (last (l # ls)) + segment_length c"
  define sc' where "sc' = setY (setY (setY (setY (scene c) l y) r y) ce y) fl y"
  define c' where "c' = c\<lparr>scene := sc',
             left_segments := ls @ [l], right_segments := rs @ [r],
             ceiling_segments := cs @ [ce], floor_segments := fs @ [fl],
             left_recycled := Suc (left_recycled c), right_recycled := Suc (right_recycled c),
             ceiling_recycled := Suc (ceiling_recycled c), floor_recycled := Suc (floor_recycled c)\<rparr>"
  have step: "recycle_segment c = Inr c'"
    unfolding c'_def sc'_def y_def by (rule recycle_segment_unfold [OF L R C F])
  have hb: "l < length (scene c)" "r < length (scene c)" "ce < length (scene c)"
    "fl < length (scene c)"
    using wf L R C F by (simp_all add: wf_handles_def handles_def)
  have gy: "getY (scene c') h = (if h = l \<or> h = r \<or> h = ce \<or> h = fl then y else getY (scene c) h)"
    for h
    using getY_four [OF hb, of y h] by (simp add: c'_def sc'_def)
  have segs: "face_segments f c' = tl (face_segments f c) @ [hd (face_segments f c)]" for f
    using L R C F by (cases f) (simp_all add: c'_def)
  have heads: "getY (scene c') (hd (face_segments f c)) =
                 getY (scene c) (last (left_segments c)) + segment_length c" for f
    using L R C F by (cases f) (simp_all add: gy y_def)
  have others: "getY (scene c') h = getY (scene c) h" if "\<And>f. h \<noteq> hd (face_segments f c)" for h
    using that [of LeftWall] that [of RightWall] that [of Ceiling] that [of Floor] L R C F
    by (simp add: gy)
  show ?thesis using step segs heads others by blast
qed


lemma length_face_segments_init:
  "length (face_segments f (Corridor_init cfg)) = nat (cfg_num_segments cfg)"
proof -
  have "length (face_positions f (Corridor_init cfg)) = nat (cfg_num_segments cfg)"
    by (simp add: Corridor_init_props)
  then show ?thesis by (simp add: face_positions_def)
qed

lemma two_panels_step:
  "map_sum id (face_positions f) (recycle_segment (Corridor_init two_panels)) = Inr [10, 20]"
proof -
  have p: "face_positions g (Corridor_init two_panels) =
             window (segment_length (Corridor_init two_panels)) 2 0" for g
    by (simp add: Corridor_init_props)
  have n: "0 < (2::nat)" by simp
  from recycle_segment_step [OF Corridor_init_props(1) n p]
  obtain c' where "recycle_segment (Corridor_init two_panels) = Inr c'"
    "face_positions f c' = window 10 2 1"
    by (auto simp: Corridor_init_props)
  then show ?thesis by (simp add: window_values)
qed

text \<open>
  Claim C2, as the specification states it, fails: the recycled panel is not placed at
  its own position plus one segment length. With two panels at 0 and 10 and segment
  length 10 the front panel goes to 20, where the rule of the specification gives 10.
\<close>

theorem recycle_front_rule_counterexample:
  "map_sum id (face_positions LeftWall) (recycle_segment (Corridor_init two_panels)) \<noteq>
     Inr (recycle_front_rule (segment_length (Corridor_init two_panels))
            (face_positions LeftWall (Corridor_init two_panels)))"
  by (simp add: two_panels_step Corridor_init_props window_values recycle_front_rule_def)

text \<open>
  Claim C2, amended. On a corridor whose lists are not empty, one call of
  \<open>recycle_segment\<close> returns and, for every face, removes the first handle from the
  head of the list and appends it to the tail; the Y of each moved panel becomes the Y
  of the last panel of the left wall (read before the call) plus the segment length; the
  Y of every other node is unchanged.
\<close>

theorem recycle_segment_moves_front_behind_tail:
  assumes "wf_handles c" and "\<And>f. face_segments f c \<noteq> []"
  shows "\<exists>c'. recycle_segment c = Inr c' \<and>
           (\<forall>f. face_segments f c' = tl (face_segments f c) @ [hd (face_segments f c)]) \<and>
           (\<forall>f. getY (scene c') (hd (face_segments f c)) =
                 getY (scene c) (last (left_segments c)) + segment_length c) \<and>
           (\<forall>h. (\<forall>f. h \<noteq> hd (face_segments f c)) \<longrightarrow> getY (scene c') h = getY (scene c) h)"
  using assms by (rule recycle_segment_effect)

theorem recycle_segment_moves_front_behind_tail_witness:
  "map_sum id (last \<circ> face_positions RightWall) (recycle_segment (Corridor_init two_panels))
     = Inr 20"
proof -
  let ?c = "Corridor_init two_panels"
  have ne: "face_segments f ?c \<noteq> []" for f
    using length_face_segments_init [of f two_panels] by auto
  from recycle_segment_moves_front_behind_tail [OF Corridor_init_props(1) ne]
  obtain c' where c': "recycle_segment ?c = Inr c'"
    "face_segments RightWall c' = tl (face_segments RightWall ?c) @ [hd (face_segments RightWall ?c)]"
    "getY (scene c') (hd (face_segments RightWall ?c)) =
       getY (scene ?c) (last (left_segments ?c)) + segment_length ?c"
    by blast
  have "getY (scene ?c) (last (left_segments ?c)) = last (face_positions LeftWall ?c)"
    using ne [of LeftWall] by (simp add: face_positions_def last_map)
  also have "\<dots> = 10"
    by (simp add: Corridor_init_props window_values)
  finally have "getY (scene c') (hd (face_segments RightWall ?c)) = 20"
    using c'(3) by (simp add: Corridor_init_props)
  then have "last (face_positions RightWall c') = 20"
    using c'(2) by (simp add: face_positions_def)
  then show ?thesis using c'(1) by simp
qed

text \<open>
  Claim C10. After \<open>build_segments\<close> with at least one segment and any number of calls
  of \<open>recycle_segment\<close>, every face holds \<open>num_segments\<close> panels and the \<open>i\<close>-th panel
  of every face has the Y of the \<open>i\<close>-th panel of the left wall; the next call gives the
  tail panel of every face one and the same Y, the Y of the left wall's tail panel
  before the call plus the segment length.
\<close>

theorem faces_stay_aligned:
  assumes "1 \<le> cfg_num_segments cfg"
  shows "\<exists>c. recycle_times r (Corridor_init cfg) = Inr c \<and>
           (\<forall>f. length (face_segments f c) = nat (cfg_num_segments cfg)) \<and>
           (\<forall>f i. i < nat (cfg_num_segments cfg) \<longrightarrow>
                  getY (scene c) (face_segments f c ! i) = getY (scene c) (left_segments c ! i)) \<and>
           (\<exists>c'. recycle_segment c = Inr c' \<and>
                 (\<forall>f. getY (scene c') (last (face_segments f c')) =
                       getY (scene c) (last (left_segments c)) + segment_length c))"
proof -
  let ?n = "nat (cfg_num_segments cfg)"
  from recycle_times_init [OF assms, of r]
  obtain c where c: "recycle_times r (Corridor_init cfg) = Inr c" "wf_handles c"
    "\<And>f. face_positions f c = window (cfg_segment_length cfg) ?n (int r)"
    by blast
  have len: "length (face_segments f c) = ?n" for f
  proof -
    have "length (face_positions f c) = ?n" by (simp add: c(3))
    then show ?thesis by (simp add: face_positions_def)
  qed
  have same: "getY (scene c) (face_segments f c ! i) = getY (scene c) (left_segments c ! i)"
    if "i < ?n" for f i
  proof -
    have "face_positions f c ! i = face_positions LeftWall c ! i"
      by (simp add: c(3))
    then show ?thesis using that len [of f] len [of LeftWall]
      by (simp add: face_positions_def)
  qed
  have ne: "face_segments f c \<noteq> []" for f
    using len [of f] assms by auto
  from recycle_segment_effect [OF c(2) ne]
  obtain c' where c': "recycle_segment c = Inr c'"
    "\<And>f. face_segments f c' = tl (face_segments f c) @ [hd (face_segments f c)]"
    "\<And>f. getY (scene c') (hd (face_segments f c)) =
           getY (scene c) (last (left_segments c)) + segment_length c"
    by blast
  have "getY (scene c') (last (face_segments f c')) =
          getY (scene c) (last (left_segments c)) + segment_length c" for f
    using c'(2) [of f] c'(3) [of f] by simp
  then show ?thesis using c(1) len same c'(1) by blast
qed

theorem faces_stay_aligned_witness:
  "map_sum id (face_positions Ceiling) (recycle_times 3 (Corridor_init example_config)) =
   map_sum id (face_positions LeftWall) (recycle_times 3 (Corridor_init example_config)) \<and>
   \<not> isl (recycle_times 3 (Corridor_init example_config))"
proof -
  have h: "1 \<le> cfg_num_segments example_config" by simp
  from faces_stay_aligned [OF h, of 3]
  obtain c where c: "recycle_times 3 (Corridor_init example_config) = Inr c"
    and l: "\<forall>f. length (face_segments f c) = nat (cfg_num_segments example_config)"
    and a: "\<forall>f i. i < nat (cfg_num_segments example_config) \<longrightarrow>
                 getY (scene c) (face_segments f c ! i) = getY (scene c) (left_segments c ! i)"
    by blast
  have l5: "length (face_segments Ceiling c) = 5" "length (left_segments c) = 5"
    using l [rule_format, of Ceiling] l [rule_format, of LeftWall] by simp_all
  have a5: "getY (scene c) (ceiling_segments c ! i) = getY (scene c) (left_segments c ! i)"
    if "i < 5" for i
    using a [rule_format, of i Ceiling] that by simp
  have "face_positions Ceiling c = face_positions LeftWall c"
    using l5 a5 by (intro nth_equalityI) (simp_all add: face_positions_def)
  then show ?thesis using c by simp
qed

section \<open>The loop of \<open>update\<close>\<close>

lemma ring_inv_step:
  assumes "ring_inv n m c"
  shows "\<exists>c'. recycle_segment c = Inr c' \<and> ring_inv n (m + 1) c' \<and>
           segment_length c' = segment_length c \<and>
           (\<forall>f. face_recycled f c' = Suc (face_recycled f c))"
proof -
  have wf: "wf_handles c" and n: "0 < n"
    and p: "\<And>f. face_positions f c = window (segment_length c) n m"
    using assms by (simp_all add: ring_inv_def)
  from recycle_segment_step [OF wf n p]
  obtain c' where c': "recycle_segment c = Inr c'" "wf_handles c'"
    "segment_length c' = segment_length c"
    "\<And>f. face_positions f c' = window (segment_length c) n (m + 1)"
    "\<And>f. face_recycled f c' = Suc (face_recycled f c)"
    by blast
  have "ring_inv n (m + 1) c'"
    using c'(2) c'(3) c'(4) n by (simp add: ring_inv_def)
  then show ?thesis using c'(1) c'(3) c'(5) by blast
qed

lemma floor_div_step:
  fixes a L :: rat
  assumes "0 < L" "L \<le> a"
  shows "nat \<lfloor>a / L\<rfloor> = Suc (nat \<lfloor>(a - L) / L\<rfloor>)"
proof -
  have "(a - L) / L = a / L - 1" using assms by (simp add: diff_divide_distrib)
  then have f: "\<lfloor>(a - L) / L\<rfloor> = \<lfloor>a / L\<rfloor> - 1" by simp
  have "1 \<le> a / L" using assms by (simp add: le_divide_eq)
  then have g: "1 \<le> \<lfloor>a / L\<rfloor>" by (simp add: le_floor_iff)
  have "nat z = Suc (nat (z - 1))" if "1 \<le> z" for z :: int
    using that by arith
  from this [OF g] show ?thesis by (simp only: f)
qed

lemma recycle_loop_result:
  assumes "nat \<lfloor>distance_since_recycle s / portal_segment_length s\<rfloor> = k"
    and "0 < portal_segment_length s" and "ring_inv n m (the_corridor s)"
  shows "\<exists>c'. recycle_loop s j =
             Some (Inr (s\<lparr>the_corridor := c',
                          distance_since_recycle :=
                            distance_since_recycle s - of_nat k * portal_segment_length s\<rparr>,
                        j + k)) \<and>
           recycle_times k (the_corridor s) = Inr c' \<and> ring_inv n (m + int k) c' \<and>
           (\<forall>f. face_recycled f c' = face_recycled f (the_corridor s) + k)"
  using assms
proof (induction k arbitrary: s j m)
  case 0
  let ?a = "distance_since_recycle s" and ?L = "portal_segment_length s"
  have "\<lfloor>?a / ?L\<rfloor> \<le> 0" using "0.prems"(1) by simp
  then have "?a / ?L < 1" by (simp add: floor_le_iff)
  then have small: "?a < ?L" using "0.prems"(2) by (simp add: divide_less_eq)
  have "recycle_loop s j = Some (Inr (s, j))"
    using small by (subst recycle_loop.simps) simp
  then show ?case using "0.prems"(3) by simp
next
  case (Suc k)
  let ?a = "distance_since_recycle s" and ?L = "portal_segment_length s"
  have "1 \<le> \<lfloor>?a / ?L\<rfloor>" using Suc.prems(1) by linarith
  then have "1 \<le> ?a / ?L" by (simp add: le_floor_iff)
  then have big: "?L \<le> ?a" using Suc.prems(2) by (simp add: le_divide_eq)
  from ring_inv_step [OF Suc.prems(3)]
  obtain c1 where c1: "recycle_segment (the_corridor s) = Inr c1" "ring_inv n (m + 1) c1"
    "\<And>f. face_recycled f c1 = Suc (face_recycled f (the_corridor s))"
    by blast
  define s1 where "s1 = s\<lparr>the_corridor := c1, distance_since_recycle := ?a - ?L\<rparr>"
  have unfold: "recycle_loop s j = recycle_loop s1 (Suc j)"
    using big c1(1) by (subst recycle_loop.simps) (simp add: s1_def)
  have k1: "nat \<lfloor>distance_since_recycle s1 / portal_segment_length s1\<rfloor> = k"
    using floor_div_step [OF Suc.prems(2) big] Suc.prems(1) by (simp add: s1_def)
  have L1: "0 < portal_segment_length s1" using Suc.prems(2) by (simp add: s1_def)
  have r1: "ring_inv n (m + 1) (the_corridor s1)" using c1(2) by (simp add: s1_def)
  from Suc.IH [OF k1 L1 r1, of "Suc j"]
  obtain c' where c': "recycle_loop s1 (Suc j) =
        Some (Inr (s1\<lparr>the_corridor := c',
                      distance_since_recycle :=
                        distance_since_recycle s1 - of_nat k * portal_segment_length s1\<rparr>,
                   Suc j + k))"
    "recycle_times k (the_corridor s1) = Inr c'" "ring_inv n (m + 1 + int k) c'"
    "\<And>f. face_recycled f c' = face_recycled f (the_corridor s1) + k"
    by blast
  have st: "s1\<lparr>the_corridor := c',
              distance_since_recycle :=
                distance_since_recycle s1 - of_nat k * portal_segment_length s1\<rparr> =
            s\<lparr>the_corridor := c',
              distance_since_recycle := ?a - of_nat (Suc k) * ?L\<rparr>"
    by (simp add: s1_def algebra_simps)
  have a: "recycle_loop s j =
             Some (Inr (s\<lparr>the_corridor := c',
                          distance_since_recycle := ?a - of_nat (Suc k) * ?L\<rparr>, j + Suc k))"
    using unfold c'(1) st by simp
  have b: "recycle_times (Suc k) (the_corridor s) = Inr c'"
    using c1(1) c'(2) by (simp add: raise_or_def s1_def)
  have "m + 1 + int k = m + int (Suc k)" by simp
  then have c: "ring_inv n (m + int (Suc k)) c'" using c'(3) by (simp only:)
  have d: "face_recycled f c' = face_recycled f (the_corridor s) + Suc k" for f
    using c'(4) [of f] c1(3) [of f] by (simp add: s1_def)
  show ?case using a b c d by blast
qed


lemma recycle_loop_returned:
  assumes "recycle_loop s j = Some (Inr (s', j'))"
  shows "\<exists>k. j' = j + k \<and> recycle_times k (the_corridor s) = Inr (the_corridor s') \<and>
           s' = s\<lparr>the_corridor := the_corridor s',
                  distance_since_recycle := distance_since_recycle s'\<rparr> \<and>
           (0 \<le> distance_since_recycle s \<longrightarrow> 0 \<le> distance_since_recycle s')"
proof -
  define P where "P = (\<lambda>s j (y :: py_error + mouse_portal \<times> nat).
     \<forall>s' j'. y = Inr (s', j') \<longrightarrow>
       (\<exists>k. j' = j + k \<and> recycle_times k (the_corridor s) = Inr (the_corridor s') \<and>
           s' = s\<lparr>the_corridor := the_corridor s',
                  distance_since_recycle := distance_since_recycle s'\<rparr> \<and>
           (0 \<le> distance_since_recycle s \<longrightarrow> 0 \<le> distance_since_recycle s')))"
  have "P s j (Inr (s', j'))"
  proof (rule recycle_loop.raw_induct [where P = P, OF _ assms])
    fix loop s j y
    assume IH: "\<And>s j y. loop s j = Some y \<Longrightarrow> P s j y"
      and body: "(if portal_segment_length s \<le> distance_since_recycle s
          then case recycle_segment (the_corridor s) of Inl e \<Rightarrow> Some (Inl e)
               | Inr c \<Rightarrow> loop (s\<lparr>the_corridor := c,
                     distance_since_recycle := distance_since_recycle s - portal_segment_length s\<rparr>)
                     (Suc j)
          else Some (Inr (s, j))) = Some y"
    show "P s j y"
    proof (cases "portal_segment_length s \<le> distance_since_recycle s")
      case False
      then have "y = Inr (s, j)" using body by simp
      then show ?thesis by (simp add: P_def)
    next
      case True
      show ?thesis
      proof (cases "recycle_segment (the_corridor s)")
        case (Inl e)
        then have "y = Inl e" using body True by simp
        then show ?thesis by (simp add: P_def)
      next
        case (Inr c)
        define s1 where "s1 = s\<lparr>the_corridor := c,
            distance_since_recycle := distance_since_recycle s - portal_segment_length s\<rparr>"
        have "loop s1 (Suc j) = Some y" using body True Inr by (simp add: s1_def)
        from IH [OF this] have P1: "P s1 (Suc j) y" .
        show ?thesis
          unfolding P_def
        proof (intro allI impI)
          fix s' j'
          assume y: "y = Inr (s', j')"
          from P1 [unfolded P_def, rule_format, OF y]
          obtain k where k: "j' = Suc j + k"
            "recycle_times k (the_corridor s1) = Inr (the_corridor s')"
            "s' = s1\<lparr>the_corridor := the_corridor s',
                    distance_since_recycle := distance_since_recycle s'\<rparr>"
            "0 \<le> distance_since_recycle s1 \<longrightarrow> 0 \<le> distance_since_recycle s'"
            by blast
          have a: "j' = j + Suc k" using k(1) by simp
          have b: "recycle_times (Suc k) (the_corridor s) = Inr (the_corridor s')"
            using k(2) Inr by (simp add: raise_or_def s1_def)
          have c: "s' = s\<lparr>the_corridor := the_corridor s',
                    distance_since_recycle := distance_since_recycle s'\<rparr>"
            by (subst k(3)) (simp add: s1_def)
          have "0 \<le> distance_since_recycle s1" using True by (simp add: s1_def)
          then have d: "0 \<le> distance_since_recycle s'" using k(4) by simp
          show "\<exists>k. j' = j + k \<and> recycle_times k (the_corridor s) = Inr (the_corridor s') \<and>
             s' = s\<lparr>the_corridor := the_corridor s',
                  distance_since_recycle := distance_since_recycle s'\<rparr> \<and>
             (0 \<le> distance_since_recycle s \<longrightarrow> 0 \<le> distance_since_recycle s')"
            using a b c d by blast
        qed
      qed
    qed
  qed
  then show ?thesis by (simp add: P_def)
qed

section \<open>What a returned tick has done\<close>



lemma recycle_times_add:
  "recycle_times a c = Inr c1 \<Longrightarrow> recycle_times b c1 = Inr c2 \<Longrightarrow>
     recycle_times (a + b) c = Inr c2"
proof (induction a arbitrary: c)
  case 0
  then show ?case by simp
next
  case (Suc a)
  then obtain c0 where c0: "recycle_segment c = Inr c0" "recycle_times a c0 = Inr c1"
    by (cases "recycle_segment c") (simp_all add: raise_or_def)
  show ?case
    using Suc.IH [OF c0(2) Suc.prems(2)] c0(1) by (simp add: raise_or_def)
qed


lemma log_tick_returned:
  assumes "log_tick now s = Inr s'"
  shows "\<exists>fs lg. s' = s\<lparr>the_data_logger := lg, files := fs\<rparr>"
  using assms
  by (auto simp: log_tick_def raise_or_def split: sum.splits prod.splits)

lemma log_tick_open:
  assumes "\<not> closed (the_data_logger s)"
  shows "\<exists>fs lg. log_tick now s = Inr (s\<lparr>the_data_logger := lg, files := fs\<rparr>) \<and> \<not> closed lg"
proof -
  let ?lg = "the_data_logger s"
  have "log_tick now s =
      Inr (s\<lparr>the_data_logger := ?lg\<lparr>pending := []\<rparr>,
             files := (files s)(filename ?lg \<mapsto>
                 (case files s (filename ?lg) of None \<Rightarrow> [] | Some rows \<Rightarrow> rows) @
                 pending ?lg @
                 [[Number now, Number (player_position s), Number (player_velocity s)]])\<rparr>)"
    using assms
    by (simp add: log_tick_def log_def writerow_def flush_def raise_or_def)
  moreover have "\<not> closed (?lg\<lparr>pending := []\<rparr>)" using assms by simp
  ultimately show ?thesis by blast
qed

lemma move_player_fields [simp]:
  "the_corridor (move_player dt s) = the_corridor s"
  "distance_since_recycle (move_player dt s) = distance_since_recycle s"
  "portal_segment_length (move_player dt s) = portal_segment_length s"
  "the_data_logger (move_player dt s) = the_data_logger s"
  "files (move_player dt s) = files s"
  "key_map (move_player dt s) = key_map s"
  "speed_scaling (move_player dt s) = speed_scaling s"
  by (simp_all add: move_player_def Let_def)

lemma update_returned:
  assumes "update dt now s = Some (Inr (s', k))"
  shows "player_velocity s' = player_velocity (move_player dt s) \<and>
         player_position s' = player_position (move_player dt s) \<and>
         key_map s' = key_map s \<and> speed_scaling s' = speed_scaling s \<and>
         portal_segment_length s' = portal_segment_length s \<and>
         recycle_times k (the_corridor s) = Inr (the_corridor s') \<and>
         (0 \<le> distance_since_recycle s \<longrightarrow> 0 \<le> distance_since_recycle s')"
proof -
  define s1 where "s1 = move_player dt s"
  define d where "d = player_velocity s1 * dt"
  define mid where "mid = (if d > 0
      then recycle_loop (s1\<lparr>distance_since_recycle := distance_since_recycle s1 + d\<rparr>) 0
      else Some (Inr (s1, 0)))"
  have u: "update dt now s =
     (case mid of None \<Rightarrow> None | Some (Inl e) \<Rightarrow> Some (Inl e)
      | Some (Inr (s2, fired)) \<Rightarrow> Some (raise_or (log_tick now s2) (\<lambda>s. Inr (s, fired))))"
    by (simp add: update_def Let_def mid_def d_def s1_def)
  from assms u obtain s2 where m: "mid = Some (Inr (s2, k))" and l: "log_tick now s2 = Inr s'"
    by (auto simp: raise_or_def split: option.splits sum.splits prod.splits)
  have s2: "player_velocity s2 = player_velocity s1 \<and> player_position s2 = player_position s1 \<and>
      key_map s2 = key_map s1 \<and> speed_scaling s2 = speed_scaling s1 \<and>
      portal_segment_length s2 = portal_segment_length s1 \<and>
      recycle_times k (the_corridor s1) = Inr (the_corridor s2) \<and>
      (0 \<le> distance_since_recycle s1 \<longrightarrow> 0 \<le> distance_since_recycle s2)"
  proof (cases "d > 0")
    case False
    then show ?thesis using m by (simp add: mid_def)
  next
    case True
    define s0 where "s0 = s1\<lparr>distance_since_recycle := distance_since_recycle s1 + d\<rparr>"
    have "recycle_loop s0 0 = Some (Inr (s2, k))" using m True by (simp add: mid_def s0_def)
    from recycle_loop_returned [OF this]
    obtain j where j: "k = 0 + j" "recycle_times j (the_corridor s0) = Inr (the_corridor s2)"
      "s2 = s0\<lparr>the_corridor := the_corridor s2,
                distance_since_recycle := distance_since_recycle s2\<rparr>"
      "0 \<le> distance_since_recycle s0 \<longrightarrow> 0 \<le> distance_since_recycle s2"
      by blast
    have f: "player_velocity s2 = player_velocity s1" "player_position s2 = player_position s1"
      "key_map s2 = key_map s1" "speed_scaling s2 = speed_scaling s1"
      "portal_segment_length s2 = portal_segment_length s1"
      by (subst j(3), simp add: s0_def)+
    have "0 \<le> distance_since_recycle s1 \<longrightarrow> 0 \<le> distance_since_recycle s2"
      using j(4) True by (simp add: s0_def)
    then show ?thesis using f j(1) j(2) by (simp add: s0_def)
  qed
  from log_tick_returned [OF l] obtain fs lg where "s' = s2\<lparr>the_data_logger := lg, files := fs\<rparr>"
    by blast
  then show ?thesis using s2 by (simp add: s1_def)
qed

lemma step_returned:
  assumes "step e s = Some (Inr (s1, n))"
  shows "recycle_times n (the_corridor s) = Inr (the_corridor s1) \<and>
         (0 \<le> distance_since_recycle s \<longrightarrow> 0 \<le> distance_since_recycle s1)"
proof (cases e)
  case (Key k v)
  then show ?thesis using assms by (auto simp: set_key_def)
next
  case (Frame dt now)
  then have "update dt now s = Some (Inr (s1, n))" using assms by simp
  from update_returned [OF this] show ?thesis by simp
qed

lemma run_returned:
  assumes "run evs s j = Some (Inr (s', j'))"
  shows "\<exists>k. j' = j + k \<and> recycle_times k (the_corridor s) = Inr (the_corridor s') \<and>
           (0 \<le> distance_since_recycle s \<longrightarrow> 0 \<le> distance_since_recycle s')"
  using assms
proof (induction evs arbitrary: s j)
  case Nil
  then show ?case by simp
next
  case (Cons e es)
  from Cons.prems obtain s1 n where st: "step e s = Some (Inr (s1, n))"
    and rest: "run es s1 (j + n) = Some (Inr (s', j'))"
    by (auto split: option.splits sum.splits prod.splits)
  from step_returned [OF st]
  have a: "recycle_times n (the_corridor s) = Inr (the_corridor s1)"
    and b: "0 \<le> distance_since_recycle s \<longrightarrow> 0 \<le> distance_since_recycle s1"
    by simp_all
  from Cons.IH [OF rest]
  obtain k where k: "j' = j + n + k" "recycle_times k (the_corridor s1) = Inr (the_corridor s')"
    "0 \<le> distance_since_recycle s1 \<longrightarrow> 0 \<le> distance_since_recycle s'"
    by blast
  have "j' = j + (n + k)" using k(1) by simp
  moreover have "recycle_times (n + k) (the_corridor s) = Inr (the_corridor s')"
    using a k(2) by (rule recycle_times_add)
  moreover have "0 \<le> distance_since_recycle s \<longrightarrow> 0 \<le> distance_since_recycle s'"
    using b k(3) by blast
  ultimately show ?case by blast
qed

lemma MousePortal_init_fields [simp]:
  "the_corridor (MousePortal_init fs cfg) = Corridor_init cfg"
  "distance_since_recycle (MousePortal_init fs cfg) = 0"
  "portal_segment_length (MousePortal_init fs cfg) = cfg_segment_length cfg"
  "player_position (MousePortal_init fs cfg) = 0"
  "player_velocity (MousePortal_init fs cfg) = 0"
  "key_map (MousePortal_init fs cfg) = (\<lambda>k. False)"
  "speed_scaling (MousePortal_init fs cfg) = (case cfg_speed_scaling cfg of None \<Rightarrow> 5 | Some v \<Rightarrow> v)"
  "closed (the_data_logger (MousePortal_init fs cfg)) = False"
  by (simp_all add: MousePortal_init_def Let_def DataLogger_init_def writeheader_def
      split: prod.splits)


lemma update_total:
  fixes dt :: rat and s :: mouse_portal
  assumes ok: "portal_ok n m s"
  defines "d \<equiv> player_velocity (move_player dt s) * dt"
  defines "k \<equiv> (if d > 0
                  then nat \<lfloor>(distance_since_recycle s + d) / portal_segment_length s\<rfloor> else 0)"
  shows "\<exists>s'. update dt now s = Some (Inr (s', k)) \<and> portal_ok n (m + int k) s' \<and>
           distance_since_recycle s' =
             (if d > 0 then distance_since_recycle s + d - of_nat k * portal_segment_length s
              else distance_since_recycle s)"
proof -
  define s1 where "s1 = move_player dt s"
  have ring: "ring_inv n m (the_corridor s)" and L: "0 < portal_segment_length s"
    and a: "0 \<le> distance_since_recycle s" and op: "\<not> closed (the_data_logger s)"
    using ok by (simp_all add: portal_ok_def)
  define s0 where "s0 = s1\<lparr>distance_since_recycle := distance_since_recycle s1 + d\<rparr>"
  have "\<exists>s2. (if d > 0 then recycle_loop s0 0 else Some (Inr (s1, 0))) = Some (Inr (s2, k)) \<and>
      ring_inv n (m + int k) (the_corridor s2) \<and> \<not> closed (the_data_logger s2) \<and>
      portal_segment_length s2 = portal_segment_length s \<and>
      distance_since_recycle s2 =
             (if d > 0 then distance_since_recycle s + d - of_nat k * portal_segment_length s
              else distance_since_recycle s)"
  proof (cases "d > 0")
    case False
    then show ?thesis using ring op by (simp add: k_def s1_def)
  next
    case True
    have k0: "nat \<lfloor>distance_since_recycle s0 / portal_segment_length s0\<rfloor> = k"
      using True by (simp add: s0_def s1_def k_def)
    have L0: "0 < portal_segment_length s0" using L by (simp add: s0_def s1_def)
    have r0: "ring_inv n m (the_corridor s0)" using ring by (simp add: s0_def s1_def)
    from recycle_loop_result [OF k0 L0 r0, of 0]
    obtain c' where c': "recycle_loop s0 0 =
        Some (Inr (s0\<lparr>the_corridor := c',
                      distance_since_recycle :=
                        distance_since_recycle s0 - of_nat k * portal_segment_length s0\<rparr>, 0 + k))"
      "ring_inv n (m + int k) c'"
      by blast
    show ?thesis
      using True c' op by (simp add: s0_def s1_def)
  qed
  then obtain s2 where s2:
      "(if d > 0 then recycle_loop s0 0 else Some (Inr (s1, 0))) = Some (Inr (s2, k))"
      "ring_inv n (m + int k) (the_corridor s2)" "\<not> closed (the_data_logger s2)"
      "portal_segment_length s2 = portal_segment_length s"
      "distance_since_recycle s2 =
             (if d > 0 then distance_since_recycle s + d - of_nat k * portal_segment_length s
              else distance_since_recycle s)"
    by blast
  from log_tick_open [OF s2(3), of now]
  obtain fs lg where lg: "log_tick now s2 = Inr (s2\<lparr>the_data_logger := lg, files := fs\<rparr>)"
    "\<not> closed lg"
    by blast
  define s' where "s' = s2\<lparr>the_data_logger := lg, files := fs\<rparr>"
  have u0: "update dt now s =
      (case (if d > 0 then recycle_loop s0 0 else Some (Inr (s1, 0))) of
         None \<Rightarrow> None
       | Some (Inl e) \<Rightarrow> Some (Inl e)
       | Some (Inr (s2, fired)) \<Rightarrow> Some (raise_or (log_tick now s2) (\<lambda>s. Inr (s, fired))))"
    by (simp add: update_def Let_def s1_def d_def s0_def)
  have u: "update dt now s = Some (Inr (s', k))"
    unfolding u0 s2(1) by (simp add: lg(1) raise_or_def s'_def)
  from update_returned [OF u] a have nonneg: "0 \<le> distance_since_recycle s'" by simp
  have "portal_ok n (m + int k) s'"
    using s2(2) s2(4) L nonneg lg(2) by (simp add: portal_ok_def s'_def)
  moreover have "distance_since_recycle s' =
             (if d > 0 then distance_since_recycle s + d - of_nat k * portal_segment_length s
              else distance_since_recycle s)"
    using s2(5) by (simp add: s'_def)
  ultimately show ?thesis using u by blast
qed

lemma portal_ok_init:
  assumes "1 \<le> cfg_num_segments cfg" and "0 < cfg_segment_length cfg"
  shows "portal_ok (nat (cfg_num_segments cfg)) 0 (MousePortal_init fs cfg)"
  using assms by (simp add: portal_ok_def ring_inv_def Corridor_init_props)

section \<open>Single ticks\<close>

lemma portal_ok_set_key [simp]: "portal_ok n m (set_key k v s) = portal_ok n m s"
  by (simp add: portal_ok_def set_key_def)

lemma example_speed [simp]: "cfg_speed_scaling example_config = Some 1"
  by (simp add: example_config_def)

lemma portal_ok_example: "portal_ok 5 0 (MousePortal_init fs example_config)"
  using portal_ok_init [of example_config fs] by simp

text \<open>
  Claim C5. In every tick the velocity becomes \<open>+speed_scaling\<close> when the forward flag
  is set, whatever the backward flag; \<open>-speed_scaling\<close> when only the backward flag is
  set; \<open>0\<close> when neither is. The position then grows by the tick's product of this
  velocity and \<open>dt\<close>, under no condition. The rest of \<open>update\<close> changes neither value:
  a tick that returns hands both back.
\<close>

theorem tick_resolves_velocity_then_moves:
  "player_velocity (move_player dt s) =
     (if key_map s forward then speed_scaling s
      else if key_map s backward then - speed_scaling s else 0) \<and>
   player_position (move_player dt s) =
     player_position s + player_velocity (move_player dt s) * dt \<and>
   (update dt now s = Some (Inr (s', k)) \<longrightarrow>
      player_velocity s' = player_velocity (move_player dt s) \<and>
      player_position s' = player_position (move_player dt s))"
proof -
  have "update dt now s = Some (Inr (s', k)) \<longrightarrow>
      player_velocity s' = player_velocity (move_player dt s) \<and>
      player_position s' = player_position (move_player dt s)"
    using update_returned [of dt now s s' k] by blast
  then show ?thesis by (simp add: move_player_def Let_def)
qed

theorem tick_resolves_velocity_then_moves_witness:
  "map_option (map_sum id (player_velocity \<circ> fst))
     (update 3 0 (set_key forward True (set_key backward True
        (MousePortal_init Map.empty example_config)))) = Some (Inr 1) \<and>
   map_option (map_sum id (player_position \<circ> fst))
     (update 3 0 (set_key forward True (set_key backward True
        (MousePortal_init Map.empty example_config)))) = Some (Inr 3)"
proof -
  let ?s = "set_key forward True (set_key backward True
        (MousePortal_init Map.empty example_config))"
  have "portal_ok 5 0 ?s" by (simp add: portal_ok_example)
  from update_total [OF this, of 3 0]
  obtain s' k where u: "update 3 0 ?s = Some (Inr (s', k))" by blast
  have v: "player_velocity (move_player 3 ?s) = 1" "player_position (move_player 3 ?s) = 3"
    by (simp_all add: move_player_def Let_def set_key_def)
  from tick_resolves_velocity_then_moves [of 3 ?s 0 s' k] u v
  have "player_velocity s' = 1" "player_position s' = 3" by simp_all
  then show ?thesis using u by simp
qed

text \<open>
  Claim C6. A tick whose move distance (the product of the resolved velocity and \<open>dt\<close>)
  is zero or negative returns with no recycle event, the same accumulator and the same
  corridor, whatever the accumulator holds. The log file is open, as it is from start to
  exit.
\<close>

theorem backward_or_still_tick_keeps_accumulator:
  assumes "\<not> closed (the_data_logger s)"
    and "player_velocity (move_player dt s) * dt \<le> 0"
  shows "\<exists>s'. update dt now s = Some (Inr (s', 0)) \<and>
           distance_since_recycle s' = distance_since_recycle s \<and>
           the_corridor s' = the_corridor s"
proof -
  define s1 where "s1 = move_player dt s"
  have op: "\<not> closed (the_data_logger s1)" using assms(1) by (simp add: s1_def)
  from log_tick_open [OF op, of now]
  obtain fs lg where lg: "log_tick now s1 = Inr (s1\<lparr>the_data_logger := lg, files := fs\<rparr>)"
    by blast
  have "\<not> 0 < player_velocity s1 * dt" using assms(2) by (simp add: s1_def)
  then have "update dt now s = Some (Inr (s1\<lparr>the_data_logger := lg, files := fs\<rparr>, 0))"
    using lg by (simp add: update_def Let_def s1_def raise_or_def)
  moreover have "distance_since_recycle (s1\<lparr>the_data_logger := lg, files := fs\<rparr>) =
                   distance_since_recycle s"
    "the_corridor (s1\<lparr>the_data_logger := lg, files := fs\<rparr>) = the_corridor s"
    by (simp_all add: s1_def)
  ultimately show ?thesis by blast
qed

theorem backward_or_still_tick_keeps_accumulator_witness:
  "map_option (map_sum id (distance_since_recycle \<circ> fst))
     (update 4 0 (set_key backward True
        ((MousePortal_init Map.empty example_config)\<lparr>distance_since_recycle := 7\<rparr>)))
     = Some (Inr 7) \<and>
   map_option (map_sum id snd)
     (update 4 0 (set_key backward True
        ((MousePortal_init Map.empty example_config)\<lparr>distance_since_recycle := 7\<rparr>)))
     = Some (Inr 0)"
proof -
  let ?s = "set_key backward True
        ((MousePortal_init Map.empty example_config)\<lparr>distance_since_recycle := 7\<rparr>)"
  have h1: "\<not> closed (the_data_logger ?s)" by (simp add: set_key_def)
  have h2: "player_velocity (move_player 4 ?s) * 4 \<le> 0"
    by (simp add: move_player_def Let_def set_key_def)
  from backward_or_still_tick_keeps_accumulator [OF h1 h2, of 0]
  obtain s' where "update 4 0 ?s = Some (Inr (s', 0))" "distance_since_recycle s' = 7"
    by (auto simp: set_key_def)
  then show ?thesis by simp
qed

section \<open>Runs of key events and ticks\<close>

lemma example_run:
  "\<exists>s. run [Key forward True, Frame 25 0] (MousePortal_init Map.empty example_config) 0
          = Some (Inr (s, 2)) \<and> distance_since_recycle s = 5"
proof -
  let ?s = "set_key forward True (MousePortal_init Map.empty example_config)"
  have ok: "portal_ok 5 0 ?s" by (simp add: portal_ok_example)
  have d: "player_velocity (move_player 25 ?s) * 25 = 25"
    by (simp add: move_player_def Let_def set_key_def)
  have a: "distance_since_recycle ?s = 0" "portal_segment_length ?s = 10"
    by (simp_all add: set_key_def)
  have fl: "\<lfloor>(5::rat) / 2\<rfloor> = 2" by (simp add: floor_eq_iff)
  from update_total [OF ok, of 25 0]
  obtain s' where "update 25 0 ?s = Some (Inr (s', 2))" "distance_since_recycle s' = 5"
    unfolding d a by (auto simp: fl)
  then show ?thesis by simp
qed


text \<open>
  Claim C8. The accumulator starts at 0, and whatever keys are pressed and whatever the
  values of \<open>dt\<close> are (negative ones included), the state a run of ticks returns has an
  accumulator that is not negative. A run that does not return, or raises, leaves no
  state to speak of.
\<close>

theorem accumulator_never_negative:
  "distance_since_recycle (MousePortal_init fs cfg) = 0 \<and>
   (run evs (MousePortal_init fs cfg) 0 = Some (Inr (s, k)) \<longrightarrow>
      0 \<le> distance_since_recycle s)"
proof -
  have "0 \<le> distance_since_recycle s"
    if "run evs (MousePortal_init fs cfg) 0 = Some (Inr (s, k))"
    using run_returned [OF that] by simp
  then show ?thesis by simp
qed

theorem accumulator_never_negative_witness:
  "map_option (map_sum id ((\<le>) 0 \<circ> distance_since_recycle \<circ> fst))
     (run [Key forward True, Frame 25 0] (MousePortal_init Map.empty example_config) 0)
     = Some (Inr True)"
proof -
  from example_run obtain s where
    r: "run [Key forward True, Frame 25 0] (MousePortal_init Map.empty example_config) 0
          = Some (Inr (s, 2))"
    by blast
  from accumulator_never_negative
         [of Map.empty example_config "[Key forward True, Frame 25 0]" s 2] r
  have "0 \<le> distance_since_recycle s" by blast
  then show ?thesis unfolding r by simp
qed



section \<open>Forward ticks of one unit\<close>

lemma unit_step_arith:
  fixes r :: nat
  shows "nat \<lfloor>((of_nat r :: rat) + 1) / 10\<rfloor> = Suc r div 10"
    and "(of_nat r :: rat) + 1 - of_nat (Suc r div 10) * 10 = of_nat (Suc r mod 10)"
proof -
  have "((of_nat r :: rat) + 1) / 10 = of_nat (Suc r) / of_nat 10"
    by simp
  then have "\<lfloor>((of_nat r :: rat) + 1) / 10\<rfloor> = int (Suc r div 10)"
    by (simp only: floor_divide_of_nat_eq)
  then show "nat \<lfloor>((of_nat r :: rat) + 1) / 10\<rfloor> = Suc r div 10"
    by (simp only: nat_int)
  have "Suc r = Suc r div 10 * 10 + Suc r mod 10"
    by (simp only: div_mult_mod_eq)
  then have "(of_nat (Suc r) :: rat) = of_nat (Suc r div 10 * 10 + Suc r mod 10)"
    by (rule arg_cong)
  then have "(of_nat r :: rat) + 1 = of_nat (Suc r div 10) * 10 + of_nat (Suc r mod 10)"
    by (simp only: of_nat_Suc of_nat_add of_nat_mult of_nat_numeral add.commute)
  then show "(of_nat r :: rat) + 1 - of_nat (Suc r div 10) * 10 = of_nat (Suc r mod 10)"
    by (simp only: add_diff_cancel_left')
qed

lemma unit_ticks_count:
  fixes a l :: nat
  shows "a div 10 + (a mod 10 + l) div 10 = (a + l) div 10"
    and "(a mod 10 + l) mod 10 = (a + l) mod 10"
proof -
  have "a + l = a mod 10 + l + a div 10 * 10"
    using div_mult_mod_eq [of a 10] by linarith
  then have "(a + l) div 10 = (a mod 10 + l + a div 10 * 10) div 10"
    by (simp only:)
  also have "\<dots> = a div 10 + (a mod 10 + l) div 10"
    by (rule div_mult_self1) simp
  finally show "a div 10 + (a mod 10 + l) div 10 = (a + l) div 10" by simp
  show "(a mod 10 + l) mod 10 = (a + l) mod 10"
    by (simp add: mod_add_left_eq)
qed


lemma unit_ticks:
  assumes "portal_ok n m s" and "key_map s forward" and "speed_scaling s = 1"
    and "portal_segment_length s = 10" and "distance_since_recycle s = of_nat r"
    and "r < 10"
  shows "\<exists>s'. run (map (Frame 1) ts) s fired
                 = Some (Inr (s', fired + (r + length ts) div 10)) \<and>
              distance_since_recycle s' = of_nat ((r + length ts) mod 10) \<and>
              player_position s' = player_position s + of_nat (length ts)"
  using assms
proof (induction ts arbitrary: s fired m r)
  case Nil
  then show ?case by simp
next
  case (Cons t ts)
  have v: "player_velocity (move_player 1 s) = 1"
    "player_position (move_player 1 s) = player_position s + 1"
    using Cons.prems(2,3) by (simp_all add: move_player_def Let_def)
  have k: "(if 0 < player_velocity (move_player 1 s) * 1
            then nat \<lfloor>(distance_since_recycle s + player_velocity (move_player 1 s) * 1)
                        / portal_segment_length s\<rfloor>
            else 0) = Suc r div 10"
    using unit_step_arith(1) [of r] by (simp add: v Cons.prems(4,5))
  from update_total [OF Cons.prems(1), of 1 t]
  obtain s1 where s1: "update 1 t s = Some (Inr (s1, Suc r div 10))"
    "portal_ok n (m + int (Suc r div 10)) s1"
    "distance_since_recycle s1 =
       (if 0 < player_velocity (move_player 1 s) * 1
        then distance_since_recycle s + player_velocity (move_player 1 s) * 1
               - of_nat (Suc r div 10) * portal_segment_length s
        else distance_since_recycle s)"
    unfolding k by blast
  have a1: "distance_since_recycle s1 = of_nat (Suc r mod 10)"
    using s1(3) unit_step_arith(2) [of r] by (simp add: v Cons.prems(4,5))
  from update_returned [OF s1(1)]
  have f1: "key_map s1 forward" "speed_scaling s1 = 1" "portal_segment_length s1 = 10"
    "player_position s1 = player_position s + 1"
    using Cons.prems(2,3,4) v by simp_all
  have r1: "Suc r mod 10 < 10" by simp
  from Cons.IH [OF s1(2) f1(1) f1(2) f1(3) a1 r1, of "fired + Suc r div 10"]
  obtain s' where s': "run (map (Frame 1) ts) s1 (fired + Suc r div 10)
        = Some (Inr (s', fired + Suc r div 10 + (Suc r mod 10 + length ts) div 10))"
    "distance_since_recycle s' = of_nat ((Suc r mod 10 + length ts) mod 10)"
    "player_position s' = player_position s1 + of_nat (length ts)"
    by blast
  have c: "fired + Suc r div 10 + (Suc r mod 10 + length ts) div 10
             = fired + (r + length (t # ts)) div 10"
    using unit_ticks_count(1) [of "Suc r" "length ts"] by simp
  have e: "(Suc r mod 10 + length ts) mod 10 = (r + length (t # ts)) mod 10"
    using unit_ticks_count(2) [of "Suc r" "length ts"] by simp
  have "run (map (Frame 1) (t # ts)) s fired
          = Some (Inr (s', fired + (r + length (t # ts)) div 10))"
    using s1(1) s'(1) c by simp
  moreover have "distance_since_recycle s' = of_nat ((r + length (t # ts)) mod 10)"
    using s'(2) e by simp
  moreover have "player_position s' = player_position s + of_nat (length (t # ts))"
    using s'(3) f1(4) by simp
  ultimately show ?case by blast
qed


text \<open>
  Claim C4. With segment length 10, five segments and speed scaling 1, the forward key
  pressed at start and then 37 ticks of \<open>dt = 1\<close> (whatever the clock reads and whatever
  the file system holds), the run returns with 3 recycle events in all, the accumulator
  at 7 and the position at 37. All numbers of this run are small integers.
\<close>

theorem thirty_seven_unit_ticks:
  assumes "cfg_segment_length cfg = 10" and "cfg_num_segments cfg = 5"
    and "cfg_speed_scaling cfg = Some 1" and "length ts = 37"
  shows "\<exists>s. run (Key forward True # map (Frame 1) ts) (MousePortal_init fs cfg) 0
               = Some (Inr (s, 3)) \<and>
             distance_since_recycle s = 7 \<and> player_position s = 37"
proof -
  let ?s = "set_key forward True (MousePortal_init fs cfg)"
  have ok: "portal_ok 5 0 ?s"
    using portal_ok_init [of cfg fs] assms(1,2) by simp
  have h: "key_map ?s forward" "speed_scaling ?s = 1" "portal_segment_length ?s = 10"
    "distance_since_recycle ?s = of_nat 0" "player_position ?s = 0"
    using assms(1,3) by (simp_all add: set_key_def)
  have z: "(0::nat) < 10" by simp
  from unit_ticks [OF ok h(1) h(2) h(3) h(4) z, of ts 0]
  obtain s where "run (map (Frame 1) ts) ?s 0 = Some (Inr (s, 0 + (0 + length ts) div 10))"
    "distance_since_recycle s = of_nat ((0 + length ts) mod 10)"
    "player_position s = player_position ?s + of_nat (length ts)"
    by blast
  then have "run (Key forward True # map (Frame 1) ts) (MousePortal_init fs cfg) 0
               = Some (Inr (s, 3))"
    "distance_since_recycle s = 7" "player_position s = 37"
    using assms(4) h(5) by simp_all
  then show ?thesis by blast
qed

theorem thirty_seven_unit_ticks_witness:
  "map_option (map_sum id snd)
     (run (Key forward True # map (Frame 1) (replicate 37 0))
        (MousePortal_init Map.empty example_config) 0) = Some (Inr 3) \<and>
   map_option (map_sum id (distance_since_recycle \<circ> fst))
     (run (Key forward True # map (Frame 1) (replicate 37 0))
        (MousePortal_init Map.empty example_config) 0) = Some (Inr 7) \<and>
   map_option (map_sum id (player_position \<circ> fst))
     (run (Key forward True # map (Frame 1) (replicate 37 0))
        (MousePortal_init Map.empty example_config) 0) = Some (Inr 37)"
proof -
  have h: "cfg_segment_length example_config = 10" "cfg_num_segments example_config = 5"
    "cfg_speed_scaling example_config = Some 1" "length (replicate 37 (0::rat)) = 37"
    by simp_all
  from thirty_seven_unit_ticks [OF h, of Map.empty]
  obtain s where r: "run (Key forward True # map (Frame 1) (replicate 37 0))
        (MousePortal_init Map.empty example_config) 0 = Some (Inr (s, 3))"
    and v: "distance_since_recycle s = 7" "player_position s = 37"
    by blast
  show ?thesis unfolding r using v by simp
qed

section \<open>The log file\<close>

lemma log_open:
  assumes "\<not> closed lg"
  shows "log fs lg t p v =
           Inr (fs(filename lg \<mapsto> on_disk_after_flush fs lg @ [data_row (t, p, v)]),
                lg\<lparr>pending := []\<rparr>)"
  using assms
  by (simp add: log_def writerow_def flush_def raise_or_def on_disk_after_flush_def)

lemma log_all_open:
  assumes "\<not> closed lg"
  shows "\<exists>fs' lg'. log_all fs lg recs = Inr (fs', lg') \<and> \<not> closed lg' \<and>
           filename lg' = filename lg \<and>
           on_disk_after_flush fs' lg' = on_disk_after_flush fs lg @ map data_row recs \<and>
           fs'(filename lg := None) = fs(filename lg := None)"
  using assms
proof (induction recs arbitrary: fs lg)
  case Nil
  then show ?case by simp
next
  case (Cons rec recs)
  obtain t p v where rec: "rec = (t, p, v)" by (cases rec) auto
  define fs1 where "fs1 = fs(filename lg \<mapsto> on_disk_after_flush fs lg @ [data_row (t, p, v)])"
  define lg1 where "lg1 = lg\<lparr>pending := []\<rparr>"
  have l: "log fs lg t p v = Inr (fs1, lg1)"
    using log_open [OF Cons.prems] by (simp add: fs1_def lg1_def)
  have o1: "\<not> closed lg1" using Cons.prems by (simp add: lg1_def)
  from Cons.IH [OF o1, of fs1]
  obtain fs' lg' where r: "log_all fs1 lg1 recs = Inr (fs', lg')" "\<not> closed lg'"
    "filename lg' = filename lg1"
    "on_disk_after_flush fs' lg' = on_disk_after_flush fs1 lg1 @ map data_row recs"
    "fs'(filename lg1 := None) = fs1(filename lg1 := None)"
    by blast
  have d1: "on_disk_after_flush fs1 lg1 = on_disk_after_flush fs lg @ [data_row (t, p, v)]"
    by (simp add: on_disk_after_flush_def fs1_def lg1_def)
  have "log_all fs lg (rec # recs) = Inr (fs', lg')"
    using l r(1) by (simp add: rec raise_or_def)
  moreover have "filename lg' = filename lg" using r(3) by (simp add: lg1_def)
  moreover have "on_disk_after_flush fs' lg' = on_disk_after_flush fs lg @ map data_row (rec # recs)"
    using r(4) d1 by (simp add: rec)
  moreover have "fs'(filename lg := None) = fs(filename lg := None)"
    using r(5) by (simp add: lg1_def fs1_def)
  ultimately show ?case using r(2) by blast
qed

lemma close_open:
  assumes "\<not> closed lg"
  shows "fst (close fs lg) = fs(filename lg \<mapsto> on_disk_after_flush fs lg)"
  using assms by (simp add: close_def flush_def on_disk_after_flush_def)

lemma session_result:
  "session fs fname recs =
     Inr (fs(fname \<mapsto> (case fs fname of None \<Rightarrow> [header_row] | Some rows \<Rightarrow> rows)
                         @ map data_row recs))"
proof -
  obtain fs0 lg0 where i: "DataLogger_init fs fname = (fs0, lg0)"
    by (cases "DataLogger_init fs fname") auto
  have p0: "\<not> closed lg0" "filename lg0 = fname"
    "on_disk_after_flush fs0 lg0 = (case fs fname of None \<Rightarrow> [header_row] | Some rows \<Rightarrow> rows)"
    "fs0(fname := None) = fs(fname := None)"
    using i
    by (auto simp: DataLogger_init_def Let_def writeheader_def on_disk_after_flush_def
        header_row_def split: if_splits)
  from log_all_open [OF p0(1), of fs0 recs]
  obtain fs' lg' where r: "log_all fs0 lg0 recs = Inr (fs', lg')" "\<not> closed lg'"
    "filename lg' = fname"
    "on_disk_after_flush fs' lg' = on_disk_after_flush fs0 lg0 @ map data_row recs"
    "fs'(fname := None) = fs0(fname := None)"
    using p0(2) by auto
  have "fst (close fs' lg') = fs'(fname \<mapsto> on_disk_after_flush fs' lg')"
    using close_open [OF r(2), of fs'] r(3) by simp
  also have "\<dots> = (fs'(fname := None))(fname \<mapsto> on_disk_after_flush fs' lg')"
    by simp
  also have "\<dots> = (fs(fname := None))(fname \<mapsto> on_disk_after_flush fs' lg')"
    using r(5) p0(4) by simp
  also have "\<dots> = fs(fname \<mapsto> on_disk_after_flush fs' lg')"
    by simp
  finally have "fst (close fs' lg') =
      fs(fname \<mapsto> (case fs fname of None \<Rightarrow> [header_row] | Some rows \<Rightarrow> rows) @ map data_row recs)"
    using r(4) p0(3) by simp
  then show ?thesis
    using i r(1) by (simp add: session_def raise_or_def)
qed


lemma no_header_among_data: "count_list (map data_row recs) header_row = 0"
  by (induction recs) (auto simp: header_row_def)

text \<open>
  Claim C9. A session opens the logger on a path, logs records and closes. On a path
  that does not exist the file then holds the header row followed by one row per record,
  in order; the header row occurs once. On a path that exists the file holds what it
  held, followed by one row per record, and no header is written. A first session of
  \<open>N\<close> records on a fresh path followed by a second session of one record leaves the
  header, the \<open>N\<close> rows and the one row: no second header.
\<close>

theorem header_written_once_per_file:
  "(fs fname = None \<longrightarrow>
      session fs fname recs = Inr (fs(fname \<mapsto> header_row # map data_row recs))) \<and>
   (fs fname = Some rows \<longrightarrow>
      session fs fname recs = Inr (fs(fname \<mapsto> rows @ map data_row recs))) \<and>
   (fs fname = None \<longrightarrow>
      two_sessions fs fname recs [rec] =
        Inr (fs(fname \<mapsto> header_row # map data_row recs @ [data_row rec]))) \<and>
   count_list (header_row # map data_row recs @ [data_row rec]) header_row = 1 \<and>
   length (header_row # map data_row recs) = 1 + length recs"
proof -
  have a: "session fs fname recs = Inr (fs(fname \<mapsto> header_row # map data_row recs))"
    if "fs fname = None"
    using session_result [of fs fname recs] that by simp
  have b: "session fs fname recs = Inr (fs(fname \<mapsto> rows @ map data_row recs))"
    if "fs fname = Some rows"
    using session_result [of fs fname recs] that by simp
  have c: "two_sessions fs fname recs [rec] =
        Inr (fs(fname \<mapsto> header_row # map data_row recs @ [data_row rec]))"
    if "fs fname = None"
  proof -
    let ?fs1 = "fs(fname \<mapsto> header_row # map data_row recs)"
    have "session ?fs1 fname [rec] =
            Inr (?fs1(fname \<mapsto> (header_row # map data_row recs) @ map data_row [rec]))"
      using session_result [of ?fs1 fname "[rec]"] by simp
    then show ?thesis
      using a [OF that] by (simp add: two_sessions_def raise_or_def)
  qed
  have d: "count_list (header_row # map data_row recs @ [data_row rec]) header_row = 1"
    using no_header_among_data [of "recs @ [rec]"] by simp
  show ?thesis using a b c d by simp
qed

theorem header_written_once_per_file_witness:
  "map_sum id (read_file ''log.csv'')
     (two_sessions Map.empty ''log.csv'' [(0, 1, 1), (1, 2, 1)] [(2, 3, 1)]) =
   Inr (Some [[Text ''timestamp'', Text ''position'', Text ''velocity''],
              [Number 0, Number 1, Number 1], [Number 1, Number 2, Number 1],
              [Number 2, Number 3, Number 1]])"
proof -
  have h: "(Map.empty :: file_system) ''log.csv'' = None" by simp
  from header_written_once_per_file
         [of Map.empty "''log.csv''" "[(0, 1, 1), (1, 2, 1)]" "[]" "(2, 3, 1)"] h
  have "two_sessions Map.empty ''log.csv'' [(0, 1, 1), (1, 2, 1)] [(2, 3, 1)] =
          Inr (Map.empty(''log.csv'' \<mapsto>
                 header_row # map data_row [(0, 1, 1), (1, 2, 1)] @ [data_row (2, 3, 1)]))"
    by blast
  then show ?thesis by (simp add: read_file_def header_row_def)
qed

end
